theory Spec2Isabelle
  imports Complex_Main "HOL-Library.Sublist" "HOL-Library.Log_Nat"
begin

section \<open>The local embeddings controller of the Cody extension\<close>

text \<open>
  The development embeds \<^verbatim>\<open>LocalEmbeddingsController\<close> (the second document of
  \<^verbatim>\<open>src/vscode/test/e2e/helpers.ts\<close>, lines 218 to 632) and \<^verbatim>\<open>isDotCom\<close>
  (\<^verbatim>\<open>src/lib/shared/src/sourcegraph-api/environments.ts\<close>).

  The controller is asynchronous JavaScript: one thread, and a method runs without
  interruption from one \<^verbatim>\<open>await\<close> to the next. Each such uninterrupted piece of a
  method is one HOL function from the controller's fields to the new fields, the list of
  what it did to the outside (\<open>effect\<close>) and the list of continuations it left waiting
  (\<open>task\<close>). A continuation is resumed by a later step, with what the awaited promise
  settled to. Logging (\<^verbatim>\<open>logDebug\<close>, \<^verbatim>\<open>captureException\<close>) is left out, and so is
  \<^verbatim>\<open>dispose\<close>: the model covers a controller that has not been disposed.
\<close>

subsection \<open>JavaScript values\<close>

text \<open>A thrown or rejected value; only \<^verbatim>\<open>error.message\<close> is ever read (\<open>None\<close>: no such property).\<close>

datatype js_error = JsError (message: "string option")

text \<open>What a request to the engine is answered with, as far as the controller looks at it.\<close>

datatype reply = Truthy | Falsy | ResultSet "string list"

datatype 'a settled = Fulfilled 'a | RejectedWith js_error

text \<open>The state of the promise stored in \<^verbatim>\<open>this.service\<close>.\<close>

datatype promise = Pending | Resolved | Rejected js_error

text \<open>The number \<^verbatim>\<open>Math.floor\<close> returns: an integer, or one of the non-finite values.\<close>

datatype js_num = Num int | NaN | PosInfinity | NegInfinity

text \<open>\<^verbatim>\<open>!!x\<close> for a string, and for a reply.\<close>

definition truthy :: "string \<Rightarrow> bool" where
  "truthy s = (s \<noteq> [])"

fun truthy_reply :: "reply \<Rightarrow> bool" where
  "truthy_reply Truthy = True"
| "truthy_reply Falsy = False"
| "truthy_reply (ResultSet rs) = True"

text \<open>
  \<^verbatim>\<open>/does not appear to be a git repository/.test(s)\<close>: the pattern has no metacharacter
  and no anchor, so the test is whether it occurs somewhere in \<open>s\<close>.
\<close>

fun starts_with :: "string \<Rightarrow> string \<Rightarrow> bool" where
  "starts_with [] s = True"
| "starts_with (p # ps) [] = False"
| "starts_with (p # ps) (c # cs) = (p = c \<and> starts_with ps cs)"

fun regex_test :: "string \<Rightarrow> string \<Rightarrow> bool" where
  "regex_test pat [] = starts_with pat []"
| "regex_test pat (c # cs) = (starts_with pat (c # cs) \<or> regex_test pat cs)"

subsection \<open>Numbers\<close>

text \<open>
  A JavaScript number is an IEEE 754 double: a rational of at most 53 significant bits
  (zero has no sign here), an infinity, or \<^verbatim>\<open>NaN\<close>. Every arithmetic result is the
  exact result rounded to the nearest double, ties to the even significand; a result
  that rounds to \<open>2 ^ 1024\<close> or beyond is an infinity. \<open>exponent x\<close> is the \<open>e\<close> with
  \<open>2 ^ e \<le> x < 2 ^ (e + 1)\<close>, for a positive \<open>x\<close>; below \<open>2 ^ - 1022\<close> the doubles
  are evenly spaced.
\<close>

datatype double = Finite rat | PlusInf | MinusInf | NotANumber

definition round_even :: "rat \<Rightarrow> int" where
  "round_even y =
     (let f = \<lfloor>y\<rfloor>; d = y - of_int f
      in if d < 1 / 2 then f else if 1 / 2 < d then f + 1 else if even f then f else f + 1)"

definition exponent :: "rat \<Rightarrow> int" where
  "exponent x =
     (let d = bitlen (fst (quotient_of x)) - bitlen (snd (quotient_of x))
      in if 2 powi d \<le> x then d else d - 1)"

definition round_double :: "rat \<Rightarrow> double" where
  "round_double x =
     (if x = 0 then Finite 0
      else
        (let u = 2 powi (max (exponent \<bar>x\<bar>) (- 1022) - 52);
             r = of_int (round_even (\<bar>x\<bar> / u)) * u
         in if 2 powi 1024 \<le> r then (if 0 < x then PlusInf else MinusInf)
            else Finite (if 0 < x then r else - r)))"

fun times_double :: "double \<Rightarrow> double \<Rightarrow> double" where
  "times_double (Finite x) (Finite y) = round_double (x * y)"
| "times_double NotANumber b = NotANumber"
| "times_double a NotANumber = NotANumber"
| "times_double (Finite x) PlusInf = (if x = 0 then NotANumber else if 0 < x then PlusInf else MinusInf)"
| "times_double (Finite x) MinusInf = (if x = 0 then NotANumber else if 0 < x then MinusInf else PlusInf)"
| "times_double PlusInf (Finite y) = (if y = 0 then NotANumber else if 0 < y then PlusInf else MinusInf)"
| "times_double MinusInf (Finite y) = (if y = 0 then NotANumber else if 0 < y then MinusInf else PlusInf)"
| "times_double PlusInf PlusInf = PlusInf"
| "times_double PlusInf MinusInf = MinusInf"
| "times_double MinusInf PlusInf = MinusInf"
| "times_double MinusInf MinusInf = PlusInf"

fun divide_double :: "double \<Rightarrow> double \<Rightarrow> double" where
  "divide_double (Finite x) (Finite y) =
     (if y = 0 then (if x = 0 then NotANumber else if 0 < x then PlusInf else MinusInf)
      else round_double (x / y))"
| "divide_double NotANumber b = NotANumber"
| "divide_double a NotANumber = NotANumber"
| "divide_double (Finite x) PlusInf = Finite 0"
| "divide_double (Finite x) MinusInf = Finite 0"
| "divide_double PlusInf (Finite y) = (if 0 \<le> y then PlusInf else MinusInf)"
| "divide_double MinusInf (Finite y) = (if 0 \<le> y then MinusInf else PlusInf)"
| "divide_double PlusInf PlusInf = NotANumber"
| "divide_double PlusInf MinusInf = NotANumber"
| "divide_double MinusInf PlusInf = NotANumber"
| "divide_double MinusInf MinusInf = NotANumber"

fun Math_floor :: "double \<Rightarrow> js_num" where
  "Math_floor (Finite x) = Num \<lfloor>x\<rfloor>"
| "Math_floor PlusInf = PosInfinity"
| "Math_floor MinusInf = NegInfinity"
| "Math_floor NotANumber = NaN"

subsection \<open>The host: platform, environment, workspace, URL parser\<close>

datatype platform = Darwin | Linux | Win32 | OtherPlatform string

record host =
  platform :: platform
  env_HOME :: string
  env_LOCALAPPDATA :: string
  workspaceFolders :: "string list option"
  url_origin :: "string \<Rightarrow> string option"
  DOTCOM_origin :: string

text \<open>
  \<open>workspaceFolders\<close> is \<^verbatim>\<open>vscode.workspace.workspaceFolders\<close>, each folder given by the
  \<^verbatim>\<open>fsPath\<close> of its \<^verbatim>\<open>uri\<close>, \<open>None\<close> when it is \<^verbatim>\<open>undefined\<close>;
  \<open>url_origin u\<close> is \<^verbatim>\<open>new URL(u).origin\<close>, \<open>None\<close> when the constructor throws;
  \<open>DOTCOM_origin\<close> is \<^verbatim>\<open>DOTCOM_URL.origin\<close>.
\<close>

definition isDotCom :: "host \<Rightarrow> string \<Rightarrow> bool" where
  "isDotCom h url = (case url_origin h url of None \<Rightarrow> False | Some orig \<Rightarrow> orig = DOTCOM_origin h)"

text \<open>
  \<^verbatim>\<open>vscode.workspace.workspaceFolders?.[0].uri\<close> (lines 324 and 466), given by its
  \<^verbatim>\<open>fsPath\<close>: \<^verbatim>\<open>undefined\<close> when there is no list, and a \<^verbatim>\<open>TypeError\<close> on an empty list,
  whose element 0 is \<^verbatim>\<open>undefined\<close> and has no \<^verbatim>\<open>uri\<close>.
\<close>

definition firstWorkspaceFolder :: "host \<Rightarrow> js_error + string option" where
  "firstWorkspaceFolder h = (case workspaceFolders h of
      None \<Rightarrow> Inr None
    | Some [] \<Rightarrow> Inl (JsError (Some ''Cannot read properties of undefined (reading 'uri')''))
    | Some (folder # others) \<Rightarrow> Inr (Some folder))"

record index_paths =
  indexPath :: string
  appIndexPath :: "string option"

definition getIndexLibraryPaths :: "host \<Rightarrow> js_error + index_paths" where
  "getIndexLibraryPaths h = (case platform h of
      Darwin \<Rightarrow> Inr \<lparr>indexPath = env_HOME h @ ''/Library/Caches/com.sourcegraph.cody/embeddings'',
                     appIndexPath = Some (env_HOME h @ ''/Library/Caches/com.sourcegraph.cody/blobstore/buckets/embeddings'')\<rparr>
    | Linux \<Rightarrow> Inr \<lparr>indexPath = env_HOME h @ ''/.cache/com.sourcegraph.cody/embeddings'',
                    appIndexPath = Some (env_HOME h @ ''/.cache/com.sourcegraph.cody/blobstore/buckets/embeddings'')\<rparr>
    | Win32 \<Rightarrow> Inr \<lparr>indexPath = env_LOCALAPPDATA h @ [CHR 0x5C] @ ''com.sourcegraph.cody'' @ [CHR 0x5C] @ ''embeddings'',
                    appIndexPath = None\<rparr>
    | OtherPlatform name \<Rightarrow> Inl (JsError (Some (''Unsupported platform: '' @ name))))"

subsection \<open>The controller's fields\<close>

record RepoState =
  indexable :: bool
  isGit :: bool
  hasIndex :: bool

record LastRepo =
  path :: string
  loadResult :: bool

text \<open>
  The status bar item. Its \<^verbatim>\<open>text\<close> (field \<open>itemText\<close>) is one of four templates: the empty text of a new item,
  \<^verbatim>\<open>$(loading~spin) Cody Embeddings (${percent.toFixed(0)}%)\<close>,
  \<^verbatim>\<open>$(warning) Cody Embeddings\<close> and \<^verbatim>\<open>$(sparkle) Cody Embeddings\<close>.
\<close>

datatype bar_text = NoText | Spin js_num | WarningText | SparkleText

datatype theme_color = WarningBackground

record StatusBarItem =
  itemText :: bar_text
  backgroundColor :: "theme_color option"
  tooltip :: "string option"
  shown :: bool

record controller =
  model :: string
  endpoint :: string
  indexLibraryPath :: "string option"
  service :: "promise option"
  serviceStarted :: bool
  accessToken :: "string option"
  endpointIsDotcom :: bool
  statusBar :: "StatusBarItem option"
  lastRepo :: "LastRepo option"
  repoState :: "string \<rightharpoonup> RepoState"
  pathBeingIndexed :: "string option"

text \<open>The constructor: \<^verbatim>\<open>x || default\<close> takes the default for an absent or empty setting.\<close>

definition or_default :: "string option \<Rightarrow> string \<Rightarrow> string" where
  "or_default x d = (case x of None \<Rightarrow> d | Some v \<Rightarrow> if truthy v then v else d)"

definition new_controller :: "string option \<Rightarrow> string option \<Rightarrow> string option \<Rightarrow> controller" where
  "new_controller testingModel testingEndpoint testingIndexLibraryPath =
     \<lparr>model = or_default testingModel ''openai/text-embedding-ada-002'',
      endpoint = or_default testingEndpoint ''https://cody-gateway.sourcegraph.com/v1/embeddings'',
      indexLibraryPath = testingIndexLibraryPath,
      service = None, serviceStarted = False, accessToken = None, endpointIsDotcom = False,
      statusBar = None, lastRepo = None, repoState = Map.empty, pathBeingIndexed = None\<rparr>"

subsection \<open>What a step does to the outside, and what it leaves waiting\<close>

datatype request =
    Embeddings_initialize string index_paths
  | Embeddings_set_token string
  | Embeddings_load string
  | Embeddings_index string string nat
  | Embeddings_query string

datatype ret = RetVoid | RetBool bool | RetReply reply | RetResults "string list" | RetThrow js_error

datatype effect =
    SpawnBfg
  | Request request
  | StatusFire
  | ChangeFire
  | BarDispose
  | BarHideLater StatusBarItem
  | ShowInformationMessage
  | HandlerThrows
  | Return ret

text \<open>
  \<open>StatusFire\<close> is \<^verbatim>\<open>statusEmitter.fire(this)\<close>, \<open>ChangeFire\<close> is
  \<^verbatim>\<open>changeEmitter.fire(this)\<close>, \<open>BarHideLater\<close> the 30 second timer that hides the item,
  \<open>Return\<close> the settling of the promise a public method returned.
\<close>

datatype caller = FromStart | FromLoad | FromDone

datatype task =
    Spawn_wait
  | Initialize_wait
  | InitialToken_wait
  | Start_service
  | LoadBackground_service
  | EagerlyLoad_service string caller
  | EagerlyLoad_wait string caller
  | Index_service string
  | Index_wait string
  | SetToken_service string
  | SetToken_wait
  | Query_service string bool
  | Query_wait bool

type_synonym did = "controller \<times> effect list \<times> task list"

subsection \<open>The engine process handle: \<^verbatim>\<open>getService\<close> and \<^verbatim>\<open>spawnAndBindService\<close>\<close>

text \<open>
  \<^verbatim>\<open>getService\<close> (lines 352 to 357). The call of \<^verbatim>\<open>spawnAndBindService\<close> runs as far as
  its first \<^verbatim>\<open>await\<close>: \<^verbatim>\<open>spawnBfg\<close> has been called, and the promise that is stored is
  pending.
\<close>

definition getService :: "controller \<Rightarrow> did" where
  "getService s =
     (if service s = None then (s\<lparr>service := Some Pending\<rparr>, [SpawnBfg], [Spawn_wait])
      else (s, [], []))"

text \<open>What a continuation that awaits \<^verbatim>\<open>this.getService()\<close> is resumed with, once the promise has settled.\<close>

definition awaited_service :: "controller \<Rightarrow> unit settled option" where
  "awaited_service s = (case service s of
      Some Resolved \<Rightarrow> Some (Fulfilled ())
    | Some (Rejected e) \<Rightarrow> Some (RejectedWith e)
    | Some Pending \<Rightarrow> None
    | None \<Rightarrow> None)"

text \<open>\<^verbatim>\<open>spawnAndBindService\<close> (lines 359 to 449): an exception at any point rejects the stored promise.\<close>

definition spawnAndBindService_rejects :: "controller \<Rightarrow> js_error \<Rightarrow> did" where
  "spawnAndBindService_rejects s e = (s\<lparr>service := Some (Rejected e)\<rparr>, [], [])"

definition spawnAndBindService_returns :: "controller \<Rightarrow> did" where
  "spawnAndBindService_returns s = (s\<lparr>serviceStarted := True, service := Some Resolved\<rparr>, [ChangeFire], [])"

definition spawnAndBindService_spawned :: "host \<Rightarrow> controller \<Rightarrow> reply settled \<Rightarrow> did" where
  "spawnAndBindService_spawned h s out = (case out of
      RejectedWith e \<Rightarrow> spawnAndBindService_rejects s e
    | Fulfilled bfg \<Rightarrow> (case getIndexLibraryPaths h of
          Inl e \<Rightarrow> spawnAndBindService_rejects s e
        | Inr paths \<Rightarrow>
            (s, [Request (Embeddings_initialize (endpoint s)
                   (case indexLibraryPath s of
                      None \<Rightarrow> paths
                    | Some p \<Rightarrow> if truthy p then paths\<lparr>indexPath := p\<rparr> else paths))],
             [Initialize_wait])))"

definition spawnAndBindService_initialized :: "controller \<Rightarrow> reply settled \<Rightarrow> did" where
  "spawnAndBindService_initialized s out = (case out of
      RejectedWith e \<Rightarrow> spawnAndBindService_rejects s e
    | Fulfilled initResult \<Rightarrow> (case accessToken s of
          None \<Rightarrow> spawnAndBindService_returns s
        | Some tok \<Rightarrow>
            if truthy tok then (s, [Request (Embeddings_set_token tok)], [InitialToken_wait])
            else spawnAndBindService_returns s))"

definition spawnAndBindService_tokenSet :: "controller \<Rightarrow> reply settled \<Rightarrow> did" where
  "spawnAndBindService_tokenSet s out = (case out of
      RejectedWith e \<Rightarrow> spawnAndBindService_rejects s e
    | Fulfilled ack \<Rightarrow> spawnAndBindService_returns s)"

subsection \<open>The load-attempt routine: \<^verbatim>\<open>eagerlyLoad\<close> (lines 578 to 612)\<close>

definition noRemoteErrorMessage :: string where
  "noRemoteErrorMessage = ''repository does not have a default fetch URL, so can't be named for an index''"

definition notAGitRepositoryErrorMessage :: string where
  "notAGitRepositoryErrorMessage = ''does not appear to be a git repository''"

definition eagerlyLoad :: "controller \<Rightarrow> string \<Rightarrow> caller \<Rightarrow> did" where
  "eagerlyLoad s repoPath k =
     (case getService s of (s', fx, ts) \<Rightarrow> (s', fx, ts @ [EagerlyLoad_service repoPath k]))"

text \<open>The rest of the \<^verbatim>\<open>try\<close> block, once the request has been answered.\<close>

definition eagerlyLoad_try :: "controller \<Rightarrow> string \<Rightarrow> reply \<Rightarrow> controller" where
  "eagerlyLoad_try s repoPath r =
     (let hasIndex' = truthy_reply r
      in s\<lparr>repoState := (repoState s)(repoPath \<mapsto> \<lparr>indexable = True, isGit = True, hasIndex = hasIndex'\<rparr>),
           lastRepo := Some \<lparr>path = repoPath, loadResult = hasIndex'\<rparr>\<rparr>)"

text \<open>
  The \<^verbatim>\<open>catch\<close> block. An error without a \<^verbatim>\<open>message\<close> is compared, and tested, as
  \<^verbatim>\<open>undefined\<close>: the comparison fails and the pattern is looked for in the text
  \<^verbatim>\<open>undefined\<close>.
\<close>

definition eagerlyLoad_catch :: "controller \<Rightarrow> string \<Rightarrow> js_error \<Rightarrow> controller" where
  "eagerlyLoad_catch s repoPath error =
     (let noRemote = (message error = Some noRemoteErrorMessage);
          notGit = regex_test notAGitRepositoryErrorMessage
                     (case message error of None \<Rightarrow> ''undefined'' | Some m \<Rightarrow> m)
      in s\<lparr>repoState := (repoState s)(repoPath \<mapsto>
               \<lparr>indexable = \<not> (notGit \<or> noRemote), isGit = \<not> notGit, hasIndex = False\<rparr>),
           lastRepo := Some \<lparr>path = repoPath, loadResult = False\<rparr>\<rparr>)"

text \<open>
  Lines 610 and 611. Both blocks have just stored \<^verbatim>\<open>lastRepo\<close>, so the branch for
  \<open>None\<close> is never taken (\<open>eagerlyLoad_settled_lastRepo\<close> below).
\<close>

definition eagerlyLoad_end :: "controller \<Rightarrow> controller \<times> effect list \<times> bool" where
  "eagerlyLoad_end s = (s, [StatusFire], (case lastRepo s of None \<Rightarrow> False | Some r \<Rightarrow> loadResult r))"

text \<open>What the three callers do with the value \<^verbatim>\<open>eagerlyLoad\<close> returns (lines 326, 575, 401 to 403).\<close>

fun eagerlyLoad_returned :: "caller \<Rightarrow> bool \<Rightarrow> effect list" where
  "eagerlyLoad_returned FromStart b = [Return RetVoid]"
| "eagerlyLoad_returned FromLoad b = [Return (RetBool b)]"
| "eagerlyLoad_returned FromDone loadedOk = [ChangeFire]"

definition eagerlyLoad_settled :: "controller \<Rightarrow> string \<Rightarrow> caller \<Rightarrow> reply settled \<Rightarrow> did" where
  "eagerlyLoad_settled s repoPath k out =
     (case eagerlyLoad_end (case out of
                              Fulfilled r \<Rightarrow> eagerlyLoad_try s repoPath r
                            | RejectedWith e \<Rightarrow> eagerlyLoad_catch s repoPath e) of
        (s', fx, b) \<Rightarrow> (s', fx @ eagerlyLoad_returned k b, []))"

definition eagerlyLoad_service :: "controller \<Rightarrow> string \<Rightarrow> caller \<Rightarrow> unit settled \<Rightarrow> did" where
  "eagerlyLoad_service s repoPath k svc = (case svc of
      Fulfilled u \<Rightarrow> (s, [Request (Embeddings_load repoPath)], [EagerlyLoad_wait repoPath k])
    | RejectedWith e \<Rightarrow> eagerlyLoad_settled s repoPath k (RejectedWith e))"

subsection \<open>The handler of \<^verbatim>\<open>embeddings/progress\<close> (lines 370 to 414)\<close>

text \<open>
  The payload: an object with \<^verbatim>\<open>Progress\<close>, an object with \<^verbatim>\<open>Error\<close>, another
  object, \<^verbatim>\<open>null\<close> (an object to \<^verbatim>\<open>typeof\<close>, on which \<^verbatim>\<open>in\<close> throws), the
  string \<^verbatim>\<open>Done\<close>, or any other value.
\<close>

datatype notification =
    Progress int int string
  | Error string
  | OtherObject
  | NullValue
  | Done
  | OtherValue

text \<open>
  Line 377, \<^verbatim>\<open>Math.floor((100 * numItems) / totalItems)\<close>, for counts that arrive as
  integers: each count is the double nearest to it, and the product and the quotient
  are rounded as every result is.
\<close>

definition percent :: "int \<Rightarrow> int \<Rightarrow> js_num" where
  "percent numItems totalItems =
     Math_floor (divide_double (times_double (Finite 100) (round_double (of_int numItems)))
                               (round_double (of_int totalItems)))"

definition onProgress :: "controller \<Rightarrow> notification \<Rightarrow> did" where
  "onProgress s obj = (case statusBar s of
      None \<Rightarrow> (s, [], [])
    | Some bar \<Rightarrow> (case obj of
          Progress numItems totalItems currentPath \<Rightarrow>
            (s\<lparr>statusBar := Some (bar\<lparr>itemText := Spin (percent numItems totalItems),
                                       backgroundColor := None,
                                       tooltip := Some currentPath,
                                       shown := True\<rparr>)\<rparr>, [], [])
        | Error msg \<Rightarrow>
            (s\<lparr>statusBar := Some (bar\<lparr>itemText := WarningText,
                                       backgroundColor := Some WarningBackground,
                                       tooltip := Some msg,
                                       shown := True\<rparr>)\<rparr>, [], [])
        | OtherObject \<Rightarrow> (s, [], [])
        | NullValue \<Rightarrow> (s, [HandlerThrows], [])
        | Done \<Rightarrow>
            (let bar' = bar\<lparr>itemText := SparkleText, backgroundColor := None, shown := True\<rparr>;
                 s1 = s\<lparr>statusBar := None\<rparr>
             in case (case pathBeingIndexed s1 of
                        None \<Rightarrow> (s1, [], [])
                      | Some p \<Rightarrow>
                          if truthy p \<and> (case lastRepo s1 of None \<Rightarrow> True | Some r \<Rightarrow> path r = p)
                          then eagerlyLoad s1 p FromDone
                          else (s1, [], [])) of
                  (s2, fx, ts) \<Rightarrow>
                    (s2\<lparr>pathBeingIndexed := None\<rparr>, BarHideLater bar' # fx @ [StatusFire], ts))
        | OtherValue \<Rightarrow> (s, [ShowInformationMessage], [])))"

subsection \<open>\<^verbatim>\<open>start\<close> (lines 321 to 328)\<close>

definition start :: "controller \<Rightarrow> did" where
  "start s = (case getService s of (s', fx, ts) \<Rightarrow> (s', fx, ts @ [Start_service]))"

definition start_service :: "host \<Rightarrow> controller \<Rightarrow> unit settled \<Rightarrow> did" where
  "start_service h s svc = (case svc of
      RejectedWith e \<Rightarrow> (s, [Return (RetThrow e)], [])
    | Fulfilled u \<Rightarrow> (case firstWorkspaceFolder h of
          Inl e \<Rightarrow> (s, [Return (RetThrow e)], [])
        | Inr None \<Rightarrow> (s, [Return RetVoid], [])
        | Inr (Some fsPath) \<Rightarrow> eagerlyLoad s fsPath FromStart))"

subsection \<open>\<^verbatim>\<open>setAccessToken\<close> (lines 330 to 350)\<close>

text \<open>
  The token is a string or \<^verbatim>\<open>null\<close> (\<open>None\<close>), the stored token a string or
  \<^verbatim>\<open>undefined\<close> (\<open>None\<close>): \<^verbatim>\<open>token === this.accessToken\<close> holds for two equal
  strings only, since \<^verbatim>\<open>null\<close> is not \<^verbatim>\<open>undefined\<close>.
\<close>

definition token_is :: "string option \<Rightarrow> string option \<Rightarrow> bool" where
  "token_is token stored = (case token of None \<Rightarrow> False | Some t \<Rightarrow> stored = Some t)"

text \<open>\<^verbatim>\<open>token || undefined\<close>.\<close>

definition token_or_undefined :: "string option \<Rightarrow> string option" where
  "token_or_undefined token = (case token of None \<Rightarrow> None | Some t \<Rightarrow> if truthy t then Some t else None)"

definition setAccessToken :: "host \<Rightarrow> controller \<Rightarrow> string \<Rightarrow> string option \<Rightarrow> did" where
  "setAccessToken h s serverEndpoint token =
     (let endpointIsDotcom' = isDotCom h serverEndpoint;
          fx = (if endpointIsDotcom' \<noteq> endpointIsDotcom s
                then StatusFire # (if serviceStarted s then [ChangeFire] else [])
                else []);
          s1 = s\<lparr>endpointIsDotcom := endpointIsDotcom'\<rparr>
      in if token_is token (accessToken s1) then (s1, fx @ [Return RetVoid], [])
         else
           (let s2 = s1\<lparr>accessToken := token_or_undefined token\<rparr>
            in case token_or_undefined token of
                 None \<Rightarrow> (s2, fx @ [Return RetVoid], [])
               | Some t \<Rightarrow>
                   if serviceStarted s2
                   then (case getService s2 of (s3, fx', ts) \<Rightarrow> (s3, fx @ fx', ts @ [SetToken_service t]))
                   else (s2, fx @ [Return RetVoid], [])))"

definition setAccessToken_service :: "controller \<Rightarrow> string \<Rightarrow> unit settled \<Rightarrow> did" where
  "setAccessToken_service s token svc = (case svc of
      RejectedWith e \<Rightarrow> (s, [Return (RetThrow e)], [])
    | Fulfilled u \<Rightarrow> (s, [Request (Embeddings_set_token token)], [SetToken_wait]))"

definition setAccessToken_settled :: "controller \<Rightarrow> reply settled \<Rightarrow> did" where
  "setAccessToken_settled s out = (case out of
      RejectedWith e \<Rightarrow> (s, [Return (RetThrow e)], [])
    | Fulfilled ack \<Rightarrow> (s, [Return RetVoid], []))"

subsection \<open>The \<^verbatim>\<open>status\<close> getter (lines 459 to 519)\<close>

datatype provider_state = Indeterminate | Indexing | Ready | Unconsented | NoMatch

record ContextProvider =
  kind :: string
  providerType :: string
  state :: provider_state

record ContextGroup =
  name :: string
  providers :: "ContextProvider list"

text \<open>
  Line 466: \<^verbatim>\<open>this.lastRepo?.path || workspaceFolders?.[0].uri.fsPath || '(No workspace loaded)'\<close>.
  The workspace folders are only looked at when there is no last repository with a
  non-empty path.
\<close>

definition workspacePath :: "host \<Rightarrow> js_error + string" where
  "workspacePath h = (case firstWorkspaceFolder h of
      Inl e \<Rightarrow> Inl e
    | Inr folder \<Rightarrow> Inr (or_default folder ''(No workspace loaded)''))"

definition activePath :: "host \<Rightarrow> controller \<Rightarrow> js_error + string" where
  "activePath h s = (case lastRepo s of
      None \<Rightarrow> workspacePath h
    | Some r \<Rightarrow> if truthy (path r) then Inr (path r) else workspacePath h)"

definition status :: "host \<Rightarrow> controller \<Rightarrow> js_error + ContextGroup list" where
  "status h s =
     (if \<not> endpointIsDotcom s then Inr []
      else case activePath h s of
          Inl e \<Rightarrow> Inl e
        | Inr path' \<Rightarrow> (case lastRepo s of
              None \<Rightarrow>
                Inr [\<lparr>name = path',
                      providers = [\<lparr>kind = ''embeddings'', providerType = ''local'', state = Indeterminate\<rparr>]\<rparr>]
            | Some r \<Rightarrow>
                if pathBeingIndexed s = Some path'
                then Inr [\<lparr>name = path',
                           providers = [\<lparr>kind = ''embeddings'', providerType = ''local'', state = Indexing\<rparr>]\<rparr>]
                else if loadResult r
                then Inr [\<lparr>name = path',
                           providers = [\<lparr>kind = ''embeddings'', providerType = ''local'', state = Ready\<rparr>]\<rparr>]
                else (case repoState s path' of
                        None \<Rightarrow> Inr []
                      | Some repoState' \<Rightarrow>
                          if \<not> isGit repoState' then Inr []
                          else Inr [\<lparr>name = path',
                                     providers =
                                       [\<lparr>kind = ''embeddings'', providerType = ''local'',
                                         state = (if indexable repoState' then Unconsented else NoMatch)\<rparr>]\<rparr>])))"

subsection \<open>\<^verbatim>\<open>index\<close> (lines 523 to 546)\<close>

definition createStatusBarItem :: StatusBarItem where
  "createStatusBarItem = \<lparr>itemText = NoText, backgroundColor = None, tooltip = None, shown = False\<rparr>"

text \<open>The guard of line 524; \<^verbatim>\<open>this.lastRepo?.path\<close> is falsy for no repository and for an empty path.\<close>

definition index_guard :: "controller \<Rightarrow> bool" where
  "index_guard s =
     (endpointIsDotcom s
      \<and> (case lastRepo s of None \<Rightarrow> False | Some r \<Rightarrow> truthy (path r))
      \<and> \<not> (case lastRepo s of None \<Rightarrow> False | Some r \<Rightarrow> loadResult r))"

definition index :: "controller \<Rightarrow> did" where
  "index s =
     (if \<not> index_guard s then (s, [Return RetVoid], [])
      else case lastRepo s of
          None \<Rightarrow> (s, [Return RetVoid], [])
        | Some r \<Rightarrow> (case getService s of (s', fx, ts) \<Rightarrow> (s', fx, ts @ [Index_service (path r)])))"

definition index_service :: "controller \<Rightarrow> string \<Rightarrow> unit settled \<Rightarrow> did" where
  "index_service s repoPath svc = (case svc of
      RejectedWith e \<Rightarrow> (s, [Return RetVoid], [])
    | Fulfilled u \<Rightarrow> (s, [Request (Embeddings_index repoPath (model s) 1536)], [Index_wait repoPath]))"

definition index_settled :: "controller \<Rightarrow> string \<Rightarrow> reply settled \<Rightarrow> did" where
  "index_settled s repoPath out = (case out of
      RejectedWith e \<Rightarrow> (s, [Return RetVoid], [])
    | Fulfilled ack \<Rightarrow>
        (s\<lparr>pathBeingIndexed := Some repoPath, statusBar := Some createStatusBarItem\<rparr>,
         (case statusBar s of None \<Rightarrow> [] | Some old \<Rightarrow> [BarDispose]) @ [StatusFire, Return RetVoid],
         []))"

subsection \<open>\<^verbatim>\<open>load\<close> (lines 548 to 576)\<close>

text \<open>The argument is \<^verbatim>\<open>repoUri?.fsPath\<close>. The background start attempt only logs what it is resumed with.\<close>

definition load :: "controller \<Rightarrow> string option \<Rightarrow> did" where
  "load s repoUri =
     (if \<not> endpointIsDotcom s then (s, [Return (RetBool False)], [])
      else case repoUri of
          None \<Rightarrow> (s, [Return (RetBool False)], [])
        | Some repoPath \<Rightarrow>
            if \<not> truthy repoPath then (s, [Return (RetBool False)], [])
            else if (case repoState s repoPath of
                       None \<Rightarrow> False
                     | Some cachedState \<Rightarrow> \<not> hasIndex cachedState)
            then (s, [Return (RetBool False)], [])
            else if \<not> serviceStarted s
            then (case getService s of
                    (s', fx, ts) \<Rightarrow> (s', fx @ [Return (RetBool False)], ts @ [LoadBackground_service]))
            else eagerlyLoad s repoPath FromLoad)"

definition load_service :: "controller \<Rightarrow> unit settled \<Rightarrow> did" where
  "load_service s svc = (s, [], [])"

subsection \<open>\<^verbatim>\<open>query\<close> and \<^verbatim>\<open>getContext\<close> (lines 614 to 631)\<close>

text \<open>
  \<^verbatim>\<open>getContext\<close> is \<^verbatim>\<open>query\<close> inside a \<^verbatim>\<open>try\<close> whose \<^verbatim>\<open>catch\<close> returns the empty
  list; the flag says which of the two was called. A reply without \<^verbatim>\<open>results\<close> makes
  \<^verbatim>\<open>results.length\<close> throw, inside that \<^verbatim>\<open>try\<close>.
\<close>

definition query_returns :: "bool \<Rightarrow> reply settled \<Rightarrow> effect list" where
  "query_returns viaGetContext out = (case out of
      RejectedWith e \<Rightarrow> [Return (if viaGetContext then RetResults [] else RetThrow e)]
    | Fulfilled r \<Rightarrow>
        [Return (if viaGetContext then RetResults (case r of ResultSet rs \<Rightarrow> rs | Truthy \<Rightarrow> [] | Falsy \<Rightarrow> [])
                 else RetReply r)])"

definition query :: "controller \<Rightarrow> string \<Rightarrow> bool \<Rightarrow> did" where
  "query s q viaGetContext =
     (if \<not> endpointIsDotcom s then (s, query_returns viaGetContext (Fulfilled (ResultSet [])), [])
      else case getService s of (s', fx, ts) \<Rightarrow> (s', fx, ts @ [Query_service q viaGetContext]))"

definition query_service :: "controller \<Rightarrow> string \<Rightarrow> bool \<Rightarrow> unit settled \<Rightarrow> did" where
  "query_service s q viaGetContext svc = (case svc of
      RejectedWith e \<Rightarrow> (s, query_returns viaGetContext (RejectedWith e), [])
    | Fulfilled u \<Rightarrow> (s, [Request (Embeddings_query q)], [Query_wait viaGetContext]))"

definition query_settled :: "controller \<Rightarrow> bool \<Rightarrow> reply settled \<Rightarrow> did" where
  "query_settled s viaGetContext out = (s, query_returns viaGetContext out, [])"

subsection \<open>The event loop\<close>

text \<open>
  A system is the controller and the continuations that wait. A continuation that
  awaits \<^verbatim>\<open>getService()\<close> is resumed with what the stored promise settled to, and cannot
  be resumed while it is pending; any other continuation is resumed with the answer of
  the engine (or of \<^verbatim>\<open>spawnBfg\<close>), which the event carries. The order in which waiting
  continuations are resumed, and the moment a notification arrives, are not restricted.
\<close>

fun resume :: "host \<Rightarrow> controller \<Rightarrow> task \<Rightarrow> reply settled \<Rightarrow> did option" where
  "resume h s Spawn_wait out = Some (spawnAndBindService_spawned h s out)"
| "resume h s Initialize_wait out = Some (spawnAndBindService_initialized s out)"
| "resume h s InitialToken_wait out = Some (spawnAndBindService_tokenSet s out)"
| "resume h s Start_service out = map_option (start_service h s) (awaited_service s)"
| "resume h s LoadBackground_service out = map_option (load_service s) (awaited_service s)"
| "resume h s (EagerlyLoad_service p k) out = map_option (eagerlyLoad_service s p k) (awaited_service s)"
| "resume h s (EagerlyLoad_wait p k) out = Some (eagerlyLoad_settled s p k out)"
| "resume h s (Index_service p) out = map_option (index_service s p) (awaited_service s)"
| "resume h s (Index_wait p) out = Some (index_settled s p out)"
| "resume h s (SetToken_service t) out = map_option (setAccessToken_service s t) (awaited_service s)"
| "resume h s SetToken_wait out = Some (setAccessToken_settled s out)"
| "resume h s (Query_service q c) out = map_option (query_service s q c) (awaited_service s)"
| "resume h s (Query_wait c) out = Some (query_settled s c out)"

datatype event =
    Call_start
  | Call_setAccessToken string "string option"
  | Call_load "string option"
  | Call_index
  | Call_query string
  | Call_getContext string
  | Notify notification
  | Resume nat "reply settled"

type_synonym system = "controller \<times> task list"

definition enqueue :: "task list \<Rightarrow> did \<Rightarrow> system \<times> effect list" where
  "enqueue waiting d = (case d of (s', fx, ts) \<Rightarrow> ((s', waiting @ ts), fx))"

definition step :: "host \<Rightarrow> system \<Rightarrow> event \<Rightarrow> system \<times> effect list" where
  "step h sys ev = (case sys of (s, waiting) \<Rightarrow> (case ev of
      Call_start \<Rightarrow> enqueue waiting (start s)
    | Call_setAccessToken serverEndpoint token \<Rightarrow> enqueue waiting (setAccessToken h s serverEndpoint token)
    | Call_load repoUri \<Rightarrow> enqueue waiting (load s repoUri)
    | Call_index \<Rightarrow> enqueue waiting (index s)
    | Call_query q \<Rightarrow> enqueue waiting (query s q False)
    | Call_getContext q \<Rightarrow> enqueue waiting (query s q True)
    | Notify obj \<Rightarrow> enqueue waiting (onProgress s obj)
    | Resume i out \<Rightarrow>
        if i < length waiting
        then (case resume h s (waiting ! i) out of
                None \<Rightarrow> (sys, [])
              | Some d \<Rightarrow> enqueue (take i waiting @ drop (Suc i) waiting) d)
        else (sys, [])))"

fun run :: "host \<Rightarrow> system \<Rightarrow> event list \<Rightarrow> system \<times> effect list" where
  "run h sys [] = (sys, [])"
| "run h sys (ev # evs) =
     (case step h sys ev of (sys', fx) \<Rightarrow> (case run h sys' evs of (sys'', fx') \<Rightarrow> (sys'', fx @ fx')))"

subsection \<open>Invariants of the event loop\<close>

text \<open>The invariant of the repository state store: a path recorded as not git is recorded as not indexable.\<close>

definition nonGit_not_indexable :: "controller \<Rightarrow> bool" where
  "nonGit_not_indexable s = (\<forall>p c. repoState s p = Some c \<longrightarrow> \<not> isGit c \<longrightarrow> \<not> indexable c)"

text \<open>An entry of \<^verbatim>\<open>repoState\<close> is only written together with \<^verbatim>\<open>lastRepo\<close>.\<close>

definition loaded_before_cached :: "controller \<Rightarrow> bool" where
  "loaded_before_cached s = (\<forall>p c. repoState s p = Some c \<longrightarrow> lastRepo s \<noteq> None)"

text \<open>
  The last repository has a cached state, whose \<open>hasIndex\<close> is the \<open>loadResult\<close>; and
  only a git repository has an index.
\<close>

definition last_load_cached :: "controller \<Rightarrow> bool" where
  "last_load_cached s = (case lastRepo s of
      None \<Rightarrow> True
    | Some r \<Rightarrow> (\<exists>c. repoState s (path r) = Some c \<and> hasIndex c = loadResult r
                        \<and> (hasIndex c \<longrightarrow> isGit c)))"

text \<open>Every piece of a method that one step of the event loop can run from the fields \<open>s\<close>.\<close>

inductive_set segments :: "host \<Rightarrow> controller \<Rightarrow> did set" for h :: host and s :: controller where
  seg_start: "start s \<in> segments h s"
| seg_setAccessToken: "setAccessToken h s serverEndpoint token \<in> segments h s"
| seg_load: "load s repoUri \<in> segments h s"
| seg_index: "index s \<in> segments h s"
| seg_query: "query s q viaGetContext \<in> segments h s"
| seg_onProgress: "onProgress s obj \<in> segments h s"
| seg_resume: "resume h s t out = Some d \<Longrightarrow> d \<in> segments h s"

text \<open>What a piece of a method may do to the two fields the load-attempt routine writes.\<close>

definition repo_same :: "controller \<Rightarrow> controller \<Rightarrow> bool" where
  "repo_same s s' = (repoState s' = repoState s \<and> lastRepo s' = lastRepo s)"

definition repo_effect :: "controller \<Rightarrow> controller \<Rightarrow> bool" where
  "repo_effect s s' =
     (repo_same s s'
      \<or> (\<exists>p r. repo_same (eagerlyLoad_try s p r) s')
      \<or> (\<exists>p e. repo_same (eagerlyLoad_catch s p e) s'))"

text \<open>
  Three classes of waiting continuations: those of \<^verbatim>\<open>spawnAndBindService\<close> itself; those
  that only exist once the service has started; and those of \<^verbatim>\<open>index\<close>, which carry
  the path that passed the guard.
\<close>

fun spawn_chain :: "task \<Rightarrow> bool" where
  "spawn_chain Spawn_wait = True"
| "spawn_chain Initialize_wait = True"
| "spawn_chain InitialToken_wait = True"
| "spawn_chain t = False"

fun needs_service :: "task \<Rightarrow> bool" where
  "needs_service (EagerlyLoad_service p k) = True"
| "needs_service (EagerlyLoad_wait p k) = True"
| "needs_service (Index_wait p) = True"
| "needs_service t = False"

fun indexes_truthy :: "task \<Rightarrow> bool" where
  "indexes_truthy (Index_service p) = truthy p"
| "indexes_truthy (Index_wait p) = truthy p"
| "indexes_truthy t = True"

text \<open>
  What holds of every system the event loop reaches from a new controller:
  \<^verbatim>\<open>serviceStarted\<close> says that the stored promise has resolved; \<^verbatim>\<open>spawnAndBindService\<close>
  is under way exactly while the stored promise is pending; a status bar item, a
  \<^verbatim>\<open>lastRepo\<close> and a waiting load or index request exist only once the service has
  started; and while a path is being indexed the status bar item exists.
\<close>

definition consistent :: "system \<Rightarrow> bool" where
  "consistent sys = (case sys of (s, w) \<Rightarrow>
      (serviceStarted s \<longleftrightarrow> service s = Some Resolved)
    \<and> length (filter spawn_chain w) = (if service s = Some Pending then 1 else 0)
    \<and> ((statusBar s \<noteq> None \<or> lastRepo s \<noteq> None \<or> list_ex needs_service w) \<longrightarrow> serviceStarted s)
    \<and> list_all indexes_truthy w
    \<and> (case pathBeingIndexed s of None \<Rightarrow> True | Some p \<Rightarrow> statusBar s \<noteq> None \<and> truthy p))"

subsection \<open>A worked session\<close>

text \<open>
  A Linux host with the workspace \<^verbatim>\<open>/repo\<close>, and the events of a session on it: sign in
  to dotcom, start the engine, load the workspace (no index yet), ask for the index.
\<close>

definition example_host :: host where
  "example_host = \<lparr>platform = Linux, env_HOME = ''/home/u'', env_LOCALAPPDATA = '''',
          workspaceFolders = Some [''/repo''],
          url_origin = (\<lambda>u. if u = ''https://sourcegraph.com/'' then Some ''https://sourcegraph.com'' else None),
          DOTCOM_origin = ''https://sourcegraph.com''\<rparr>"

definition started_events :: "event list" where
  "started_events =
     [Call_setAccessToken ''https://sourcegraph.com/'' (Some ''tok''),
      Call_start, Resume 0 (Fulfilled Truthy), Resume 1 (Fulfilled Truthy), Resume 1 (Fulfilled Truthy),
      Resume 0 (Fulfilled Truthy), Resume 0 (Fulfilled Truthy)]"

definition indexing_events :: "event list" where
  "indexing_events = started_events @
     [Resume 0 (RejectedWith (JsError (Some ''index not found''))),
      Call_index, Resume 0 (Fulfilled Truthy), Resume 0 (Fulfilled Truthy)]"

definition indexing_system :: system where
  "indexing_system = fst (run example_host (new_controller None None None, []) indexing_events)"

definition notGit_events :: "event list" where
  "notGit_events = started_events @
     [Resume 0 (RejectedWith (JsError (Some ''fatal: /repo does not appear to be a git repository'')))]"

definition noRemote_events :: "event list" where
  "noRemote_events = started_events @ [Resume 0 (RejectedWith (JsError (Some noRemoteErrorMessage)))]"

text \<open>
  The systems these events lead to: the engine started and the load request sent; the
  load refused for a directory that is not git, and for a repository without a remote;
  the first spawn failed; the index built and loaded again after \<^verbatim>\<open>Done\<close>.
\<close>

definition started_system :: system where
  "started_system = fst (run example_host (new_controller None None None, []) started_events)"

definition notGit_system :: system where
  "notGit_system = fst (run example_host (new_controller None None None, []) notGit_events)"

definition noRemote_system :: system where
  "noRemote_system = fst (run example_host (new_controller None None None, []) noRemote_events)"

definition failed_system :: system where
  "failed_system = fst (run example_host (new_controller None None None, [])
                          [Call_start, Resume 0 (RejectedWith (JsError (Some ''spawn cody-engine ENOENT'')))])"

definition loaded_events :: "event list" where
  "loaded_events = indexing_events @
     [Notify Done, Resume 0 (Fulfilled Truthy), Resume 0 (Fulfilled Truthy)]"

definition loaded_system :: system where
  "loaded_system = fst (run example_host (new_controller None None None, []) loaded_events)"

text \<open>While \<^verbatim>\<open>/repo\<close> is indexed, another folder is loaded and becomes the last repository.\<close>

definition switched_events :: "event list" where
  "switched_events = indexing_events @
     [Call_load (Some ''/other''), Resume 0 (Fulfilled Truthy), Resume 0 (Fulfilled Falsy)]"

definition switched_system :: system where
  "switched_system = fst (run example_host (new_controller None None None, []) switched_events)"

text \<open>Signed in to dotcom, the engine not yet asked for.\<close>

definition signedIn_system :: system where
  "signedIn_system = fst (run example_host (new_controller None None None, [])
                            [Call_setAccessToken ''https://sourcegraph.com/'' None])"

text \<open>The directory that is not git, and \<^verbatim>\<open>index()\<close> called for it all the same.\<close>

definition notGit_indexing_events :: "event list" where
  "notGit_indexing_events = notGit_events @
     [Call_index, Resume 0 (Fulfilled Truthy), Resume 0 (Fulfilled Truthy)]"

definition notGit_indexing_system :: system where
  "notGit_indexing_system = fst (run example_host (new_controller None None None, []) notGit_indexing_events)"

text \<open>The same host with an empty list of workspace folders.\<close>

definition folderless_host :: host where
  "folderless_host = example_host\<lparr>workspaceFolders := Some []\<rparr>"

section \<open>Lemmas on the event loop\<close>

subsection \<open>One step runs one piece of a method\<close>

lemma enqueue_segment:
  assumes "enqueue w0 d = ((s', w'), fx)" and "d \<in> segments h s"
  shows "\<exists>ts. w' = w0 @ ts \<and> (s', fx, ts) \<in> segments h s"
  using assms by (cases d) (auto simp add: enqueue_def)

lemma step_is_segment:
  assumes "step h (s, w) ev = ((s', w'), fx)"
  shows "(s' = s \<and> w' = w \<and> fx = []) \<or> (\<exists>w0 ts. w' = w0 @ ts \<and> (s', fx, ts) \<in> segments h s)"
proof (cases ev)
  case (Resume i out)
  show ?thesis
  proof (cases "i < length w")
    case False
    with Resume assms show ?thesis by (simp add: step_def)
  next
    case True
    show ?thesis
    proof (cases "resume h s (w ! i) out")
      case None
      with Resume True assms show ?thesis by (simp add: step_def)
    next
      case (Some d)
      with Resume True assms have "enqueue (take i w @ drop (Suc i) w) d = ((s', w'), fx)"
        by (simp add: step_def)
      from enqueue_segment [OF this seg_resume [OF Some]] show ?thesis by blast
    qed
  qed
next
  case Call_start
  with assms have "enqueue w (start s) = ((s', w'), fx)" by (simp add: step_def)
  from enqueue_segment [OF this seg_start] show ?thesis by blast
next
  case (Call_setAccessToken ep tok)
  with assms have "enqueue w (setAccessToken h s ep tok) = ((s', w'), fx)" by (simp add: step_def)
  from enqueue_segment [OF this seg_setAccessToken] show ?thesis by blast
next
  case (Call_load u)
  with assms have "enqueue w (load s u) = ((s', w'), fx)" by (simp add: step_def)
  from enqueue_segment [OF this seg_load] show ?thesis by blast
next
  case Call_index
  with assms have "enqueue w (index s) = ((s', w'), fx)" by (simp add: step_def)
  from enqueue_segment [OF this seg_index] show ?thesis by blast
next
  case (Call_query q)
  with assms have "enqueue w (query s q False) = ((s', w'), fx)" by (simp add: step_def)
  from enqueue_segment [OF this seg_query] show ?thesis by blast
next
  case (Call_getContext q)
  with assms have "enqueue w (query s q True) = ((s', w'), fx)" by (simp add: step_def)
  from enqueue_segment [OF this seg_query] show ?thesis by blast
next
  case (Notify obj)
  with assms have "enqueue w (onProgress s obj) = ((s', w'), fx)" by (simp add: step_def)
  from enqueue_segment [OF this seg_onProgress] show ?thesis by blast
qed

subsection \<open>Once \<^verbatim>\<open>this.service\<close> is set, nothing spawns again\<close>

lemma getService_started: "service s \<noteq> None \<Longrightarrow> getService s = (s, [], [])"
  by (simp add: getService_def)

lemma awaited_service_Some: "awaited_service s = Some svc \<Longrightarrow> service s \<noteq> None"
  by (auto simp add: awaited_service_def split: option.splits promise.splits)

lemma eagerlyLoad_settled_no_respawn:
  "service s \<noteq> None \<Longrightarrow> service (fst (eagerlyLoad_settled s p k out)) \<noteq> None
     \<and> SpawnBfg \<notin> set (fst (snd (eagerlyLoad_settled s p k out)))"
  by (cases out; cases k)
     (simp_all add: eagerlyLoad_settled_def eagerlyLoad_end_def eagerlyLoad_try_def eagerlyLoad_catch_def Let_def)

lemma continuation_no_respawn:
  assumes "service s \<noteq> None"
  shows "service (fst (spawnAndBindService_spawned h s out)) \<noteq> None
           \<and> SpawnBfg \<notin> set (fst (snd (spawnAndBindService_spawned h s out)))"
    and "service (fst (spawnAndBindService_initialized s out)) \<noteq> None
           \<and> SpawnBfg \<notin> set (fst (snd (spawnAndBindService_initialized s out)))"
    and "service (fst (spawnAndBindService_tokenSet s out)) \<noteq> None
           \<and> SpawnBfg \<notin> set (fst (snd (spawnAndBindService_tokenSet s out)))"
    and "service (fst (start_service h s svc)) \<noteq> None
           \<and> SpawnBfg \<notin> set (fst (snd (start_service h s svc)))"
    and "service (fst (load_service s svc)) \<noteq> None
           \<and> SpawnBfg \<notin> set (fst (snd (load_service s svc)))"
    and "service (fst (eagerlyLoad_service s p k svc)) \<noteq> None
           \<and> SpawnBfg \<notin> set (fst (snd (eagerlyLoad_service s p k svc)))"
    and "service (fst (index_service s p svc)) \<noteq> None
           \<and> SpawnBfg \<notin> set (fst (snd (index_service s p svc)))"
    and "service (fst (index_settled s p out)) \<noteq> None
           \<and> SpawnBfg \<notin> set (fst (snd (index_settled s p out)))"
    and "service (fst (setAccessToken_service s tok svc)) \<noteq> None
           \<and> SpawnBfg \<notin> set (fst (snd (setAccessToken_service s tok svc)))"
    and "service (fst (setAccessToken_settled s out)) \<noteq> None
           \<and> SpawnBfg \<notin> set (fst (snd (setAccessToken_settled s out)))"
    and "service (fst (query_service s q c svc)) \<noteq> None
           \<and> SpawnBfg \<notin> set (fst (snd (query_service s q c svc)))"
    and "service (fst (query_settled s c out)) \<noteq> None
           \<and> SpawnBfg \<notin> set (fst (snd (query_settled s c out)))"
proof -
  show "service (fst (spawnAndBindService_spawned h s out)) \<noteq> None
           \<and> SpawnBfg \<notin> set (fst (snd (spawnAndBindService_spawned h s out)))"
    using assms by (cases out)
      (simp_all add: spawnAndBindService_spawned_def spawnAndBindService_rejects_def split: sum.splits)
  show "service (fst (spawnAndBindService_initialized s out)) \<noteq> None
           \<and> SpawnBfg \<notin> set (fst (snd (spawnAndBindService_initialized s out)))"
    using assms by (cases out)
      (simp_all add: spawnAndBindService_initialized_def spawnAndBindService_rejects_def
         spawnAndBindService_returns_def split: option.splits)
  show "service (fst (spawnAndBindService_tokenSet s out)) \<noteq> None
           \<and> SpawnBfg \<notin> set (fst (snd (spawnAndBindService_tokenSet s out)))"
    using assms by (cases out)
      (simp_all add: spawnAndBindService_tokenSet_def spawnAndBindService_rejects_def
         spawnAndBindService_returns_def)
  show "service (fst (start_service h s svc)) \<noteq> None
           \<and> SpawnBfg \<notin> set (fst (snd (start_service h s svc)))"
    using assms by (cases svc)
      (simp_all add: start_service_def eagerlyLoad_def getService_started split: option.splits sum.splits)
  show "service (fst (load_service s svc)) \<noteq> None
           \<and> SpawnBfg \<notin> set (fst (snd (load_service s svc)))"
    using assms by (simp add: load_service_def)
  show "service (fst (eagerlyLoad_service s p k svc)) \<noteq> None
           \<and> SpawnBfg \<notin> set (fst (snd (eagerlyLoad_service s p k svc)))"
    using assms eagerlyLoad_settled_no_respawn [OF assms] by (cases svc)
      (simp_all add: eagerlyLoad_service_def)
  show "service (fst (index_service s p svc)) \<noteq> None
           \<and> SpawnBfg \<notin> set (fst (snd (index_service s p svc)))"
    using assms by (cases svc) (simp_all add: index_service_def)
  show "service (fst (index_settled s p out)) \<noteq> None
           \<and> SpawnBfg \<notin> set (fst (snd (index_settled s p out)))"
    using assms by (cases out) (simp_all add: index_settled_def split: option.splits)
  show "service (fst (setAccessToken_service s tok svc)) \<noteq> None
           \<and> SpawnBfg \<notin> set (fst (snd (setAccessToken_service s tok svc)))"
    using assms by (cases svc) (simp_all add: setAccessToken_service_def)
  show "service (fst (setAccessToken_settled s out)) \<noteq> None
           \<and> SpawnBfg \<notin> set (fst (snd (setAccessToken_settled s out)))"
    using assms by (cases out) (simp_all add: setAccessToken_settled_def)
  show "service (fst (query_service s q c svc)) \<noteq> None
           \<and> SpawnBfg \<notin> set (fst (snd (query_service s q c svc)))"
    using assms by (cases svc) (simp_all add: query_service_def query_returns_def)
  show "service (fst (query_settled s c out)) \<noteq> None
           \<and> SpawnBfg \<notin> set (fst (snd (query_settled s c out)))"
    using assms by (cases out) (simp_all add: query_settled_def query_returns_def)
qed

lemma resume_no_respawn:
  assumes "service s \<noteq> None" and "resume h s t out = Some d"
  shows "service (fst d) \<noteq> None \<and> SpawnBfg \<notin> set (fst (snd d))"
  using assms(2) continuation_no_respawn [OF assms(1)] eagerlyLoad_settled_no_respawn [OF assms(1)]
  by (cases t) auto

lemma segment_no_respawn:
  assumes "d \<in> segments h s" and "service s \<noteq> None"
  shows "service (fst d) \<noteq> None \<and> SpawnBfg \<notin> set (fst (snd d))"
  using assms
proof (cases rule: segments.cases)
  case seg_start
  with assms(2) show ?thesis by (simp add: start_def getService_started)
next
  case (seg_setAccessToken serverEndpoint token)
  with assms(2) show ?thesis
    by (simp add: setAccessToken_def Let_def getService_started split: option.splits)
next
  case (seg_load repoUri)
  with assms(2) show ?thesis
    by (simp add: load_def eagerlyLoad_def getService_started split: option.splits)
next
  case seg_index
  with assms(2) show ?thesis by (simp add: index_def getService_started split: option.splits)
next
  case (seg_query q viaGetContext)
  with assms(2) show ?thesis by (simp add: query_def query_returns_def getService_started)
next
  case (seg_onProgress obj)
  with assms(2) show ?thesis
    by (simp add: onProgress_def Let_def eagerlyLoad_def getService_started
          split: option.splits notification.splits)
next
  case (seg_resume t out)
  with assms(2) show ?thesis using resume_no_respawn by blast
qed

lemma step_no_respawn:
  assumes "service s \<noteq> None" and "step h (s, w) ev = ((s', w'), fx)"
  shows "service s' \<noteq> None \<and> SpawnBfg \<notin> set fx"
  using step_is_segment [OF assms(2)] segment_no_respawn [OF _ assms(1)] assms(1) by fastforce

lemma run_no_respawn:
  "service s \<noteq> None \<Longrightarrow> SpawnBfg \<notin> set (snd (run h (s, w) evs))"
proof (induction evs arbitrary: s w)
  case Nil
  then show ?case by simp
next
  case (Cons ev evs)
  obtain s' w' fx where st: "step h (s, w) ev = ((s', w'), fx)" by (metis prod.exhaust)
  from step_no_respawn [OF Cons.prems st] have "service s' \<noteq> None" "SpawnBfg \<notin> set fx" by auto
  with Cons.IH [of s' w'] st show ?case by (auto split: prod.splits)
qed

subsection \<open>Only the load-attempt routine writes \<^verbatim>\<open>repoState\<close> and \<^verbatim>\<open>lastRepo\<close>\<close>

lemma repo_sameI: "repoState s' = repoState s \<Longrightarrow> lastRepo s' = lastRepo s \<Longrightarrow> repo_effect s s'"
  by (simp add: repo_effect_def repo_same_def)

lemma getService_repo:
  "repoState (fst (getService s)) = repoState s" "lastRepo (fst (getService s)) = lastRepo s"
  by (simp_all add: getService_def)

lemma eagerlyLoad_repo:
  "repoState (fst (eagerlyLoad s p k)) = repoState s" "lastRepo (fst (eagerlyLoad s p k)) = lastRepo s"
  by (simp_all add: eagerlyLoad_def getService_def)

lemma eagerlyLoad_settled_repo: "repo_effect s (fst (eagerlyLoad_settled s p k out))"
  by (cases out) (auto simp add: repo_effect_def repo_same_def eagerlyLoad_settled_def eagerlyLoad_end_def)

lemma resume_repo:
  assumes "resume h s t out = Some d"
  shows "repo_effect s (fst d)"
proof (cases t)
  case Spawn_wait
  with assms show ?thesis
    by (cases out)
       (auto intro!: repo_sameI simp add: spawnAndBindService_spawned_def spawnAndBindService_rejects_def
          split: sum.splits)
next
  case Initialize_wait
  with assms show ?thesis
    by (cases out)
       (auto intro!: repo_sameI simp add: spawnAndBindService_initialized_def
          spawnAndBindService_rejects_def spawnAndBindService_returns_def split: option.splits)
next
  case InitialToken_wait
  with assms show ?thesis
    by (cases out)
       (auto intro!: repo_sameI simp add: spawnAndBindService_tokenSet_def
          spawnAndBindService_rejects_def spawnAndBindService_returns_def)
next
  case Start_service
  with assms obtain svc where "d = start_service h s svc" by auto
  then show ?thesis
    by (cases svc)
       (auto intro!: repo_sameI simp add: start_service_def eagerlyLoad_repo split: option.splits sum.splits)
next
  case LoadBackground_service
  with assms show ?thesis by (auto intro!: repo_sameI simp add: load_service_def)
next
  case (EagerlyLoad_service p k)
  with assms obtain svc where "d = eagerlyLoad_service s p k svc" by auto
  then show ?thesis
    by (cases svc) (auto intro: repo_sameI simp add: eagerlyLoad_service_def eagerlyLoad_settled_repo)
next
  case (EagerlyLoad_wait p k)
  with assms show ?thesis by (auto simp add: eagerlyLoad_settled_repo)
next
  case (Index_service p)
  with assms obtain svc where "d = index_service s p svc" by auto
  then show ?thesis by (cases svc) (auto intro!: repo_sameI simp add: index_service_def)
next
  case (Index_wait p)
  with assms show ?thesis by (cases out) (auto intro!: repo_sameI simp add: index_settled_def)
next
  case (SetToken_service tok)
  with assms obtain svc where "d = setAccessToken_service s tok svc" by auto
  then show ?thesis by (cases svc) (auto intro!: repo_sameI simp add: setAccessToken_service_def)
next
  case SetToken_wait
  with assms show ?thesis by (cases out) (auto intro!: repo_sameI simp add: setAccessToken_settled_def)
next
  case (Query_service q c)
  with assms obtain svc where "d = query_service s q c svc" by auto
  then show ?thesis by (cases svc) (auto intro!: repo_sameI simp add: query_service_def)
next
  case (Query_wait c)
  with assms show ?thesis by (auto intro!: repo_sameI simp add: query_settled_def)
qed

lemma segment_repo:
  assumes "d \<in> segments h s"
  shows "repo_effect s (fst d)"
  using assms
proof (cases rule: segments.cases)
  case seg_start
  then show ?thesis by (auto intro!: repo_sameI simp add: start_def getService_repo case_prod_beta)
next
  case (seg_setAccessToken serverEndpoint token)
  then show ?thesis
    by (auto intro!: repo_sameI simp add: setAccessToken_def Let_def getService_repo case_prod_beta
          split: option.splits)
next
  case (seg_load repoUri)
  then show ?thesis
    by (auto intro!: repo_sameI simp add: load_def eagerlyLoad_repo getService_repo case_prod_beta
          split: option.splits)
next
  case seg_index
  then show ?thesis
    by (auto intro!: repo_sameI simp add: index_def getService_repo case_prod_beta split: option.splits)
next
  case (seg_query q viaGetContext)
  then show ?thesis by (auto intro!: repo_sameI simp add: query_def getService_repo case_prod_beta)
next
  case (seg_onProgress obj)
  then show ?thesis
    by (cases obj)
       (auto intro!: repo_sameI simp add: onProgress_def Let_def eagerlyLoad_repo case_prod_beta
          split: option.splits)
next
  case (seg_resume t out)
  then show ?thesis using resume_repo by blast
qed

lemma eagerlyLoad_settled_lastRepo:
  "lastRepo (fst (eagerlyLoad_settled s p k out))
     = Some \<lparr>path = p,
             loadResult = (case out of Fulfilled r \<Rightarrow> truthy_reply r | RejectedWith e \<Rightarrow> False)\<rparr>"
  by (cases out)
     (simp_all add: eagerlyLoad_settled_def eagerlyLoad_end_def eagerlyLoad_try_def eagerlyLoad_catch_def
        Let_def)

lemma repo_effect_last_load:
  assumes "repo_effect s s'" and "last_load_cached s"
  shows "last_load_cached s'"
  using assms
  by (auto simp add: repo_effect_def repo_same_def last_load_cached_def eagerlyLoad_try_def
        eagerlyLoad_catch_def Let_def split: option.splits)

lemma repo_effect_nonGit:
  assumes "repo_effect s s'" and "nonGit_not_indexable s"
  shows "nonGit_not_indexable s'"
  using assms
  by (auto simp add: repo_effect_def repo_same_def nonGit_not_indexable_def eagerlyLoad_try_def
        eagerlyLoad_catch_def Let_def split: if_splits)

lemma repo_effect_loaded:
  assumes "repo_effect s s'" and "loaded_before_cached s"
  shows "loaded_before_cached s'"
  using assms
  by (auto simp add: repo_effect_def repo_same_def loaded_before_cached_def eagerlyLoad_try_def
        eagerlyLoad_catch_def Let_def split: if_splits)

subsection \<open>The reachable systems are consistent\<close>

lemma consistentI:
  assumes "serviceStarted s \<longleftrightarrow> service s = Some Resolved"
    and "length (filter spawn_chain w) = (if service s = Some Pending then 1 else 0)"
    and "statusBar s \<noteq> None \<or> lastRepo s \<noteq> None \<or> list_ex needs_service w \<Longrightarrow> serviceStarted s"
    and "list_all indexes_truthy w"
    and "\<And>p. pathBeingIndexed s = Some p \<Longrightarrow> statusBar s \<noteq> None \<and> truthy p"
  shows "consistent (s, w)"
  using assms by (auto simp add: consistent_def split: option.splits)

lemma consistentD:
  assumes "consistent (s, w)"
  shows "serviceStarted s \<longleftrightarrow> service s = Some Resolved"
    and "length (filter spawn_chain w) = (if service s = Some Pending then 1 else 0)"
    and "statusBar s \<noteq> None \<or> lastRepo s \<noteq> None \<or> list_ex needs_service w \<Longrightarrow> serviceStarted s"
    and "list_all indexes_truthy w"
    and "\<And>p. pathBeingIndexed s = Some p \<Longrightarrow> statusBar s \<noteq> None \<and> truthy p"
  using assms by (auto simp add: consistent_def split: option.splits)

lemma consistent_new: "consistent (new_controller m e i, [])"
  by (simp add: consistent_def new_controller_def)

text \<open>Asking for the service, then waiting with a continuation that is not one of \<^verbatim>\<open>spawnAndBindService\<close>.\<close>

lemma consistent_getService_then:
  assumes "consistent (s, w)" and "\<not> spawn_chain t" and "indexes_truthy t"
    and "needs_service t \<Longrightarrow> serviceStarted s"
  shows "consistent (fst (getService s), w @ snd (snd (getService s)) @ [t])"
proof (cases "service s = None")
  case True
  with consistentD [OF assms(1)] assms(2-4) show ?thesis
    by (intro consistentI) (auto simp add: getService_def)
next
  case False
  with consistentD [OF assms(1)] assms(2-4) show ?thesis
    by (intro consistentI) (auto simp add: getService_def)
qed

lemma consistent_start: "consistent (s, w) \<Longrightarrow> consistent (fst (start s), w @ snd (snd (start s)))"
  using consistent_getService_then [of s w Start_service]
  by (simp add: start_def case_prod_beta)

lemma consistent_eqI:
  assumes "consistent (s, w)"
    and "service s' = service s" and "serviceStarted s' = serviceStarted s"
    and "statusBar s' = statusBar s" and "lastRepo s' = lastRepo s"
    and "pathBeingIndexed s' = pathBeingIndexed s"
  shows "consistent (s', w)"
  using assms by (auto simp add: consistent_def split: option.splits)

lemma consistent_setAccessToken:
  assumes "consistent (s, w)"
  shows "consistent (fst (setAccessToken h s ep tok), w @ snd (snd (setAccessToken h s ep tok)))"
proof -
  have c: "consistent (fst (getService s'), w @ snd (snd (getService s')) @ [SetToken_service t])"
    if "service s' = service s" and "serviceStarted s' = serviceStarted s"
      and "statusBar s' = statusBar s" and "lastRepo s' = lastRepo s"
      and "pathBeingIndexed s' = pathBeingIndexed s" for s' t
    using consistent_getService_then [OF consistent_eqI [OF assms that], of "SetToken_service t"] by simp
  show ?thesis
    by (simp add: setAccessToken_def Let_def case_prod_beta c consistent_eqI [OF assms]
          split: option.splits)
qed

lemma consistent_eagerlyLoad:
  assumes "consistent (s, w)" and "serviceStarted s"
  shows "consistent (fst (eagerlyLoad s p k), w @ snd (snd (eagerlyLoad s p k)))"
  using consistent_getService_then [OF assms(1), of "EagerlyLoad_service p k"] assms(2)
  by (simp add: eagerlyLoad_def case_prod_beta)

lemma consistent_load: "consistent (s, w) \<Longrightarrow> consistent (fst (load s u), w @ snd (snd (load s u)))"
  using consistent_getService_then [of s w LoadBackground_service] consistent_eagerlyLoad [of s w]
  by (simp add: load_def case_prod_beta split: option.splits)

lemma consistent_index: "consistent (s, w) \<Longrightarrow> consistent (fst (index s), w @ snd (snd (index s)))"
  using consistent_getService_then [of s w "Index_service p" for p]
  by (simp add: index_def index_guard_def case_prod_beta split: option.splits)

lemma consistent_query: "consistent (s, w) \<Longrightarrow> consistent (fst (query s q c), w @ snd (snd (query s q c)))"
  using consistent_getService_then [of s w "Query_service q c"]
  by (simp add: query_def case_prod_beta)

lemma consistent_onProgress:
  assumes "consistent (s, w)"
  shows "consistent (fst (onProgress s obj), w @ snd (snd (onProgress s obj)))"
proof (cases "statusBar s")
  case None
  with assms show ?thesis by (simp add: onProgress_def)
next
  case (Some bar)
  note D = consistentD [OF assms]
  from Some D have started: "serviceStarted s" "service s = Some Resolved" by auto
  show ?thesis
  proof (cases obj)
    case Done
    show ?thesis
      using D started Some Done
      by (intro consistentI)
         (auto simp add: onProgress_def Let_def eagerlyLoad_def getService_def case_prod_beta
            split: option.splits)
  qed (use D started Some in \<open>(intro consistentI; auto simp add: onProgress_def)+\<close>)
qed

lemma awaited_service_cases:
  assumes "awaited_service s = Some svc"
  shows "(svc = Fulfilled () \<and> service s = Some Resolved)
           \<or> (\<exists>e. svc = RejectedWith e \<and> service s = Some (Rejected e))"
  using assms by (auto simp add: awaited_service_def split: option.splits promise.splits)

lemma eagerlyLoad_settled_fields:
  "service (fst (eagerlyLoad_settled s p k out)) = service s"
  "serviceStarted (fst (eagerlyLoad_settled s p k out)) = serviceStarted s"
  "statusBar (fst (eagerlyLoad_settled s p k out)) = statusBar s"
  "pathBeingIndexed (fst (eagerlyLoad_settled s p k out)) = pathBeingIndexed s"
  "snd (snd (eagerlyLoad_settled s p k out)) = []"
  by (cases out; simp add: eagerlyLoad_settled_def eagerlyLoad_end_def eagerlyLoad_try_def
        eagerlyLoad_catch_def Let_def)+

lemma needs_service_not_chain: "needs_service t \<Longrightarrow> \<not> spawn_chain t"
  by (cases t) simp_all

lemma consistent_eagerlyLoad_settled:
  assumes "consistent (s, w1 @ t # w2)" and "needs_service t"
  shows "consistent (fst (eagerlyLoad_settled s p k out), w1 @ w2)"
  using consistentD [OF assms(1)] assms(2)
  by (intro consistentI) (auto simp add: eagerlyLoad_settled_fields needs_service_not_chain)

lemma consistent_resume:
  assumes "consistent (s, w1 @ t # w2)" and "resume h s t out = Some d"
  shows "consistent (fst d, w1 @ w2 @ snd (snd d))"
proof -
  note D = consistentD [OF assms(1)]
  show ?thesis
  proof (cases t)
    case Spawn_wait
    with assms(2) have d: "d = spawnAndBindService_spawned h s out" by simp
    show ?thesis
      using D Spawn_wait unfolding d
      by (intro consistentI; cases out)
         (auto simp add: spawnAndBindService_spawned_def spawnAndBindService_rejects_def
            split: sum.splits if_splits)
  next
    case Initialize_wait
    with assms(2) have d: "d = spawnAndBindService_initialized s out" by simp
    show ?thesis
      using D Initialize_wait unfolding d
      by (intro consistentI; cases out)
         (auto simp add: spawnAndBindService_initialized_def spawnAndBindService_rejects_def
            spawnAndBindService_returns_def split: option.splits if_splits)
  next
    case InitialToken_wait
    with assms(2) have d: "d = spawnAndBindService_tokenSet s out" by simp
    show ?thesis
      using D InitialToken_wait unfolding d
      by (intro consistentI; cases out)
         (auto simp add: spawnAndBindService_tokenSet_def spawnAndBindService_rejects_def
            spawnAndBindService_returns_def split: if_splits)
  next
    case Start_service
    with assms(2) obtain svc where svc: "awaited_service s = Some svc" and d: "d = start_service h s svc"
      by auto
    show ?thesis
      using D Start_service awaited_service_cases [OF svc] unfolding d
      by (intro consistentI)
         (auto simp add: start_service_def eagerlyLoad_def getService_def split: option.splits sum.splits)
  next
    case LoadBackground_service
    with assms(2) D show ?thesis
      by (intro consistentI) (auto simp add: load_service_def)
  next
    case (EagerlyLoad_service p k)
    with assms(2) obtain svc where svc: "awaited_service s = Some svc"
      and d: "d = eagerlyLoad_service s p k svc" by auto
    from awaited_service_cases [OF svc] show ?thesis
    proof
      assume "svc = Fulfilled () \<and> service s = Some Resolved"
      with D EagerlyLoad_service show ?thesis unfolding d
        by (intro consistentI) (auto simp add: eagerlyLoad_service_def)
    next
      assume "\<exists>e. svc = RejectedWith e \<and> service s = Some (Rejected e)"
      with consistent_eagerlyLoad_settled [OF assms(1), of p k] EagerlyLoad_service show ?thesis
        unfolding d by (auto simp add: eagerlyLoad_service_def eagerlyLoad_settled_fields)
    qed
  next
    case (EagerlyLoad_wait p k)
    with assms(2) consistent_eagerlyLoad_settled [OF assms(1), of p k out] show ?thesis
      by (auto simp add: eagerlyLoad_settled_fields)
  next
    case (Index_service p)
    with assms(2) obtain svc where svc: "awaited_service s = Some svc" and d: "d = index_service s p svc"
      by auto
    show ?thesis
      using D Index_service awaited_service_cases [OF svc] unfolding d
      by (intro consistentI) (auto simp add: index_service_def)
  next
    case (Index_wait p)
    with assms(2) have d: "d = index_settled s p out" by simp
    show ?thesis
      using D Index_wait unfolding d
      by (intro consistentI; cases out) (auto simp add: index_settled_def)
  next
    case (SetToken_service tok)
    with assms(2) obtain svc where svc: "awaited_service s = Some svc"
      and d: "d = setAccessToken_service s tok svc" by auto
    show ?thesis
      using D SetToken_service awaited_service_cases [OF svc] unfolding d
      by (intro consistentI) (auto simp add: setAccessToken_service_def)
  next
    case SetToken_wait
    with assms(2) have d: "d = setAccessToken_settled s out" by simp
    show ?thesis
      using D SetToken_wait unfolding d
      by (intro consistentI; cases out) (auto simp add: setAccessToken_settled_def)
  next
    case (Query_service q c)
    with assms(2) obtain svc where svc: "awaited_service s = Some svc"
      and d: "d = query_service s q c svc" by auto
    show ?thesis
      using D Query_service awaited_service_cases [OF svc] unfolding d
      by (intro consistentI) (auto simp add: query_service_def)
  next
    case (Query_wait c)
    with assms(2) have d: "d = query_settled s c out" by simp
    show ?thesis
      using D Query_wait unfolding d
      by (intro consistentI) (auto simp add: query_settled_def)
  qed
qed

lemma consistent_step:
  assumes "consistent sys"
  shows "consistent (fst (step h sys ev))"
proof -
  obtain s w where sys: "sys = (s, w)" by (cases sys) auto
  show ?thesis
  proof (cases ev)
    case (Resume i out)
    show ?thesis
    proof (cases "i < length w")
      case False
      with Resume sys assms show ?thesis by (simp add: step_def)
    next
      case True
      then have w: "w = take i w @ (w ! i) # drop (Suc i) w" by (simp add: id_take_nth_drop)
      show ?thesis
      proof (cases "resume h s (w ! i) out")
        case None
        with Resume True sys assms show ?thesis by (simp add: step_def)
      next
        case (Some d)
        from assms sys w have "consistent (s, take i w @ (w ! i) # drop (Suc i) w)" by simp
        from consistent_resume [OF this Some] Resume True Some sys show ?thesis
          by (cases d) (simp add: step_def enqueue_def)
      qed
    qed
  next
    case Call_start
    with sys consistent_start [of s w] assms show ?thesis
      by (cases "start s") (simp add: step_def enqueue_def)
  next
    case (Call_setAccessToken ep tok)
    with sys consistent_setAccessToken [of s w h ep tok] assms show ?thesis
      by (cases "setAccessToken h s ep tok") (simp add: step_def enqueue_def)
  next
    case (Call_load u)
    with sys consistent_load [of s w u] assms show ?thesis
      by (cases "load s u") (simp add: step_def enqueue_def)
  next
    case Call_index
    with sys consistent_index [of s w] assms show ?thesis
      by (cases "index s") (simp add: step_def enqueue_def)
  next
    case (Call_query q)
    with sys consistent_query [of s w q False] assms show ?thesis
      by (cases "query s q False") (simp add: step_def enqueue_def)
  next
    case (Call_getContext q)
    with sys consistent_query [of s w q True] assms show ?thesis
      by (cases "query s q True") (simp add: step_def enqueue_def)
  next
    case (Notify obj)
    with sys consistent_onProgress [of s w obj] assms show ?thesis
      by (cases "onProgress s obj") (simp add: step_def enqueue_def)
  qed
qed

lemma run_Cons_fst: "fst (run h sys (ev # evs)) = fst (run h (fst (step h sys ev)) evs)"
  by (cases "step h sys ev"; cases "run h (fst (step h sys ev)) evs") simp

lemma consistent_run: "consistent sys \<Longrightarrow> consistent (fst (run h sys evs))"
proof (induction evs arbitrary: sys)
  case Nil
  then show ?case by simp
next
  case (Cons ev evs)
  from Cons.IH [OF consistent_step [OF Cons.prems, of h ev]] show ?case
    by (simp only: run_Cons_fst)
qed

subsection \<open>The pattern test and the percentage\<close>



text \<open>Rounding to the nearest integer is at most one half off, and keeps an integer.\<close>

lemma round_even_upper: "of_int (round_even y) \<le> y + 1 / 2"
  unfolding round_even_def Let_def by (auto simp add: not_less) linarith+

lemma round_even_lower: "y - 1 / 2 \<le> of_int (round_even y)"
  unfolding round_even_def Let_def by (auto simp add: not_less) linarith+

lemma round_even_of_int: "round_even (of_int k) = k"
  by (simp add: round_even_def)

lemma exponent_le:
  assumes "0 < x"
  shows "2 powi (exponent x) \<le> x"
proof -
  obtain a b where q: "quotient_of x = (a, b)" by (cases "quotient_of x") auto
  from quotient_of_denom_pos [OF q] have b: "0 < b" .
  from quotient_of_div [OF q] have x: "x = of_int a / of_int b" .
  with assms b have a: "0 < a" by (simp add: zero_less_divide_iff)
  from bitlen_bounds [OF a] have la: "2 ^ nat (bitlen a - 1) \<le> a" by simp
  from bitlen_bounds [OF b] have lb: "b < 2 ^ nat (bitlen b)" by simp
  from a have la1: "1 \<le> bitlen a" by (simp add: bitlen_alt_def) 
  have eq: "bitlen a - bitlen b - 1 = (bitlen a - 1) - bitlen b" by simp
  have "(2::rat) powi (bitlen a - bitlen b - 1) = 2 powi (bitlen a - 1) / 2 powi (bitlen b)"
    unfolding eq by (rule power_int_diff) simp
  also have "\<dots> = 2 ^ nat (bitlen a - 1) / 2 ^ nat (bitlen b)"
    using la1 bitlen_nonneg [of b] by (simp add: power_int_def)
  also have "\<dots> \<le> of_int a / of_int b"
  proof -
    have "(2::rat) ^ nat (bitlen a - 1) \<le> of_int a"
    proof -
      from la have "(of_int (2 ^ nat (bitlen a - 1)) :: rat) \<le> of_int a" by (simp only: of_int_le_iff)
      then show ?thesis by simp
    qed
    moreover have "of_int b \<le> (2::rat) ^ nat (bitlen b)"
    proof -
      from lb have "b \<le> 2 ^ nat (bitlen b)" by simp
      then have "(of_int b :: rat) \<le> of_int (2 ^ nat (bitlen b))" by (simp only: of_int_le_iff)
      then show ?thesis by simp
    qed
    ultimately show ?thesis
      using b a by (intro frac_le) simp_all
  qed
  finally have "(2::rat) powi (bitlen a - bitlen b - 1) \<le> x" using x by simp
  with q show ?thesis by (simp add: exponent_def Let_def)
qed

lemma of_int_less_power2: "k < 2 ^ n \<Longrightarrow> (of_int k :: rat) < 2 ^ n"
proof -
  assume "k < 2 ^ n"
  then have "(of_int k :: rat) < of_int (2 ^ n)" by (simp only: of_int_less_iff)
  then show ?thesis by simp
qed

lemma less_power2_of_int: "(of_int k :: rat) < 2 ^ n \<Longrightarrow> k < 2 ^ n"
proof -
  assume "(of_int k :: rat) < 2 ^ n"
  then have "(of_int k :: rat) < of_int (2 ^ n)" by simp
  then show ?thesis by (simp only: of_int_less_iff)
qed

lemma exponent_less_53:
  assumes "0 < x" and "x < 2 ^ 53"
  shows "exponent x < 53"
proof (rule ccontr)
  assume "\<not> exponent x < 53"
  then have "(2::rat) powi 53 \<le> 2 powi (exponent x)" by (intro power_int_increasing) simp_all
  also have "\<dots> \<le> x" by (rule exponent_le [OF assms(1)])
  finally show False using assms(2) by simp
qed

text \<open>An integer below \<open>2 ^ 53\<close> is a double.\<close>

lemma round_double_of_int:
  assumes "0 \<le> k" and "k < 2 ^ 53"
  shows "round_double (of_int k) = Finite (of_int k)"
proof (cases "k = 0")
  case True
  then show ?thesis by (simp add: round_double_def)
next
  case False
  with assms have pos: "0 < (of_int k :: rat)" by simp
  define e where "e = max (exponent (of_int k)) (- 1022)"
  have k53: "(of_int k :: rat) < 2 ^ 53" using assms(2) by (rule of_int_less_power2)
  from exponent_less_53 [OF pos k53] have e: "e \<le> 52" by (simp add: e_def)
  define N :: nat where "N = nat (52 - e)"
  have u: "(2::rat) powi (e - 52) = 1 / 2 ^ N"
    using e by (simp add: N_def power_int_def field_simps)
  have "of_int k / (2::rat) powi (e - 52) = of_int (k * 2 ^ N)" by (simp add: u)
  then have "round_even (of_int k / (2::rat) powi (e - 52)) = k * 2 ^ N"
    by (simp only: round_even_of_int)
  then have r: "of_int (round_even (\<bar>of_int k\<bar> / (2::rat) powi (e - 52))) * (2::rat) powi (e - 52) = of_int k"
    using pos by (simp add: u)
  have "(of_int k :: rat) < 2 powi 1024"
  proof -
    have "(2::rat) ^ 53 \<le> 2 ^ 1024" by (rule power_increasing) simp_all
    with k53 show ?thesis by simp
  qed
  with r pos False show ?thesis
    by (simp add: round_double_def Let_def e_def [symmetric] not_le del: of_int_abs)
qed

text \<open>
  The quotient of two such integers is rounded to a double with the same integer part:
  it is at least \<open>1 / b\<close> below the next integer, more than half a unit in the last
  place.
\<close>

lemma floor_round_double_divide:
  assumes "0 \<le> a" and "a < 2 ^ 53" and "0 < b" and "b < 2 ^ 53"
  shows "\<exists>y. round_double (of_int a / of_int b) = Finite y \<and> \<lfloor>y\<rfloor> = a div b"
proof (cases "a = 0")
  case True
  then show ?thesis by (simp add: round_double_def)
next
  case False
  define x :: rat where "x = of_int a / of_int b"
  define q where "q = a div b"
  from False assms have pos: "0 < x" by (simp add: x_def)
  have q: "q = \<lfloor>x\<rfloor>" by (simp add: q_def x_def floor_divide_of_int_eq)
  have a53: "(of_int a :: rat) < 2 ^ 53" using assms(2) by (rule of_int_less_power2)
  have b53: "(of_int b :: rat) < 2 ^ 53" using assms(4) by (rule of_int_less_power2)
  have b1: "(1::rat) \<le> of_int b" using assms(3) by simp
  have "x \<le> of_int a"
    unfolding x_def using assms(1) b1 by (simp add: divide_le_eq mult_le_cancel_left1)
  with a53 have x53: "x < 2 ^ 53" by simp
  define e where "e = max (exponent x) (- 1022)"
  have ex: "(2::rat) powi (exponent x) \<le> x" by (rule exponent_le [OF pos])
  from exponent_less_53 [OF pos x53] have e: "e \<le> 52" by (simp add: e_def)
  define N :: nat where "N = nat (52 - e)"
  have u: "(2::rat) powi (e - 52) = 1 / 2 ^ N"
    using e by (simp add: N_def power_int_def field_simps)
  define R where "R = round_even (x * 2 ^ N)"
  have bN: "of_int b < (2::rat) * 2 ^ N"
  proof (cases "exponent x \<le> - 1022")
    case True
    then have "53 \<le> Suc N" by (simp add: N_def e_def)
    then have "(2::rat) ^ 53 \<le> 2 ^ Suc N" by (intro power_increasing) simp_all
    with b53 have "of_int b < (2::rat) ^ Suc N" by (rule less_le_trans)
    then show ?thesis by (simp only: power_Suc)
  next
    case False
    then have ee: "e = exponent x" by (simp add: e_def)
    have "(2::rat) powi e * of_int b \<le> of_int a"
      using ex assms(3) by (simp add: ee x_def pos_le_divide_eq)
    with a53 have "(2::rat) powi e * of_int b < 2 ^ 53" by simp
    moreover have "(2::rat) powi e = 2 ^ 52 / 2 ^ N"
    proof -
      have "e = 52 - int N" using e by (simp add: N_def)
      moreover have "(2::rat) powi (52 - int N) = 2 powi 52 / 2 powi (int N)"
        by (rule power_int_diff) simp
      ultimately show ?thesis by simp
    qed
    ultimately have "(2::rat) ^ 52 * of_int b < 2 ^ 53 * 2 ^ N"
      by (simp add: field_simps)
    then show ?thesis by simp
  qed
  have lower: "of_int q * 2 ^ N \<le> (of_int R :: rat)"
  proof -
    have "of_int q \<le> x" by (simp add: q)
    then have "of_int q * 2 ^ N \<le> x * 2 ^ N" by simp
    also have "\<dots> - 1 / 2 \<le> of_int R" unfolding R_def by (rule round_even_lower)
    finally have "(of_int (q * 2 ^ N) :: rat) - 1 / 2 \<le> of_int R" by simp
    then have "(of_int (q * 2 ^ N) :: rat) < of_int (R + 1)" by simp
    then have "q * 2 ^ N < R + 1" by (simp only: of_int_less_iff)
    then have "q * 2 ^ N \<le> R" by simp
    then have "(of_int (q * 2 ^ N) :: rat) \<le> of_int R" by (simp only: of_int_le_iff)
    then show ?thesis by simp
  qed
  have upper: "(of_int R :: rat) < (of_int q + 1) * 2 ^ N"
  proof -
    have "a = q * b + a mod b" by (simp add: q_def)
    moreover have "a mod b \<le> b - 1" using assms(3) by (simp add: zle_diff1_eq)
    ultimately have "a \<le> q * b + b - 1" by linarith
    then have "(of_int a :: rat) \<le> of_int (q * b + b - 1)" by (simp only: of_int_le_iff)
    then have "x \<le> of_int q + 1 - 1 / of_int b"
      unfolding x_def using assms(3) by (simp add: field_simps)
    then have "x * 2 ^ N \<le> (of_int q + 1 - 1 / of_int b) * 2 ^ N" by simp
    moreover have "of_int R \<le> x * 2 ^ N + 1 / 2" unfolding R_def by (rule round_even_upper)
    moreover have "(1::rat) / 2 < 2 ^ N / of_int b"
      using bN assms(3) by (simp add: field_simps)
    ultimately show ?thesis by (simp add: algebra_simps)
  qed
  define y :: rat where "y = of_int R * 2 powi (e - 52)"
  have yR: "y = of_int R / 2 ^ N" by (simp add: y_def u)
  have "of_int q \<le> y" using lower by (simp add: yR pos_le_divide_eq)
  moreover have "y < of_int q + 1" using upper by (simp add: yR pos_divide_less_eq)
  ultimately have fl: "\<lfloor>y\<rfloor> = q" by (simp add: floor_unique)
  have "of_int q \<le> x" by (simp add: q)
  with x53 have "(of_int q :: rat) < 2 ^ 53" by simp
  then have "q < 2 ^ 53" by (rule less_power2_of_int)
  then have "q + 1 \<le> 2 ^ 53" by simp
  then have "(of_int (q + 1) :: rat) \<le> of_int (2 ^ 53)" by (simp only: of_int_le_iff)
  then have "(of_int q :: rat) + 1 \<le> 2 ^ 53" by simp
  with \<open>y < of_int q + 1\<close> have "y < 2 ^ 53" by simp
  moreover have "(2::rat) ^ 53 \<le> 2 ^ 1024" by (rule power_increasing) simp_all
  ultimately have "y < 2 powi 1024" by simp
  then have "round_double x = Finite y"
    using pos by (simp add: round_double_def Let_def e_def [symmetric] y_def R_def u not_le)
  with fl show ?thesis by (simp add: x_def q_def)
qed

text \<open>So for counts in this range the displayed number is the exact integer quotient.\<close>

lemma percent_exact:
  assumes "0 \<le> numItems" and "100 * numItems < 2 ^ 53" and "0 < totalItems" and "totalItems < 2 ^ 53"
  shows "percent numItems totalItems = Num ((100 * numItems) div totalItems)"
proof -
  from assms(1,2) have n: "numItems < 2 ^ 53" by simp
  have 1: "round_double (of_int numItems) = Finite (of_int numItems)"
    by (rule round_double_of_int [OF assms(1) n])
  have 2: "round_double (of_int totalItems) = Finite (of_int totalItems)"
    using assms(3,4) by (intro round_double_of_int) simp_all
  have 3: "round_double (of_int (100 * numItems)) = Finite (of_int (100 * numItems))"
    using assms(1,2) by (intro round_double_of_int) simp_all
  from floor_round_double_divide [of "100 * numItems" totalItems] assms
  obtain y where y: "round_double (of_int (100 * numItems) / of_int totalItems) = Finite y"
    and fl: "\<lfloor>y\<rfloor> = (100 * numItems) div totalItems" by auto
  from 3 have m: "round_double (100 * of_int numItems) = Finite (of_int (100 * numItems))" by simp
  from y have y': "round_double (100 * of_int numItems / of_int totalItems) = Finite y" by simp
  from assms(3) show ?thesis
    by (simp add: percent_def 1 2 m y y' fl del: of_int_mult)
qed

text \<open>
  Beyond that range the product is rounded first, as in the code: for \<open>2 ^ 53 - 1\<close> of 7
  items the displayed number is 128674275067728432, where the exact quotient is
  128674275067728442.
\<close>

lemma percent_rounds_product:
  "percent 9007199254740991 7 = Num 128674275067728432
   \<and> (100 * 9007199254740991) div 7 = (128674275067728442 :: int)"
  by code_simp

subsection \<open>A settled \<^verbatim>\<open>this.service\<close> never changes\<close>

lemma resume_keeps_service:
  assumes "\<not> spawn_chain t" and "service s \<noteq> None" and "resume h s t out = Some d"
  shows "service (fst d) = service s"
proof (cases t)
  case Start_service
  with assms obtain svc where "d = start_service h s svc" by auto
  with assms(2) show ?thesis
    by (cases svc)
       (simp_all add: start_service_def eagerlyLoad_def getService_started split: option.splits sum.splits)
next
  case LoadBackground_service
  with assms show ?thesis by (auto simp add: load_service_def)
next
  case (EagerlyLoad_service p k)
  with assms obtain svc where "d = eagerlyLoad_service s p k svc" by auto
  then show ?thesis
    by (cases svc) (simp_all add: eagerlyLoad_service_def eagerlyLoad_settled_fields)
next
  case (EagerlyLoad_wait p k)
  with assms show ?thesis by (auto simp add: eagerlyLoad_settled_fields)
next
  case (Index_service p)
  with assms obtain svc where "d = index_service s p svc" by auto
  then show ?thesis by (cases svc) (simp_all add: index_service_def)
next
  case (Index_wait p)
  with assms show ?thesis by (cases out) (auto simp add: index_settled_def)
next
  case (SetToken_service tok)
  with assms obtain svc where "d = setAccessToken_service s tok svc" by auto
  then show ?thesis by (cases svc) (simp_all add: setAccessToken_service_def)
next
  case SetToken_wait
  with assms show ?thesis by (cases out) (auto simp add: setAccessToken_settled_def)
next
  case (Query_service q c)
  with assms obtain svc where "d = query_service s q c svc" by auto
  then show ?thesis by (cases svc) (simp_all add: query_service_def)
next
  case (Query_wait c)
  with assms show ?thesis by (auto simp add: query_settled_def)
qed (use assms in simp_all)

lemma call_keeps_service:
  assumes "service s \<noteq> None"
  shows "service (fst (start s)) = service s"
    and "service (fst (setAccessToken h s ep tok)) = service s"
    and "service (fst (load s u)) = service s"
    and "service (fst (index s)) = service s"
    and "service (fst (query s q c)) = service s"
    and "service (fst (onProgress s obj)) = service s"
proof -
  show "service (fst (start s)) = service s"
    using assms by (simp add: start_def getService_started)
  show "service (fst (setAccessToken h s ep tok)) = service s"
    using assms by (simp add: setAccessToken_def Let_def getService_started split: option.splits)
  show "service (fst (load s u)) = service s"
    using assms by (simp add: load_def eagerlyLoad_def getService_started split: option.splits)
  show "service (fst (index s)) = service s"
    using assms by (simp add: index_def getService_started split: option.splits)
  show "service (fst (query s q c)) = service s"
    using assms by (simp add: query_def getService_started)
  show "service (fst (onProgress s obj)) = service s"
    using assms
    by (cases obj)
       (simp_all add: onProgress_def Let_def eagerlyLoad_def getService_started split: option.splits)
qed

lemma step_keeps_settled_service:
  assumes "consistent (s, w)" and "service s \<noteq> None" and "service s \<noteq> Some Pending"
  shows "service (fst (fst (step h (s, w) ev))) = service s"
proof (cases ev)
  case (Resume i out)
  show ?thesis
  proof (cases "i < length w")
    case False
    with Resume show ?thesis by (simp add: step_def)
  next
    case True
    from consistentD(2) [OF assms(1)] assms(3) have "filter spawn_chain w = []" by simp
    with True have nc: "\<not> spawn_chain (w ! i)"
      by (metis filter_empty_conv nth_mem)
    show ?thesis
    proof (cases "resume h s (w ! i) out")
      case None
      with Resume True show ?thesis by (simp add: step_def)
    next
      case (Some d)
      from resume_keeps_service [OF nc assms(2) Some] Resume True Some show ?thesis
        by (cases d) (simp add: step_def enqueue_def)
    qed
  qed
qed (use call_keeps_service [OF assms(2)] in \<open>simp_all add: step_def enqueue_def case_prod_beta\<close>)

lemma run_keeps_settled_service:
  assumes "consistent sys" and "service (fst sys) \<noteq> None" and "service (fst sys) \<noteq> Some Pending"
  shows "service (fst (fst (run h sys evs))) = service (fst sys)"
  using assms
proof (induction evs arbitrary: sys)
  case Nil
  then show ?case by simp
next
  case (Cons ev evs)
  obtain s w where sys: "sys = (s, w)" by (cases sys) auto
  from Cons.prems sys have keep: "service (fst (fst (step h sys ev))) = service s"
    using step_keeps_settled_service [of s w h ev] by simp
  from Cons.IH [OF consistent_step [OF Cons.prems(1), of h ev]] keep Cons.prems(2,3) sys
  have "service (fst (fst (run h (fst (step h sys ev)) evs))) = service s" by simp
  with sys show ?case by (simp only: run_Cons_fst fst_conv)
qed

lemma reachable_consistent: "consistent (fst (run h (new_controller m e i, []) evs))"
  by (rule consistent_run [OF consistent_new])

subsection \<open>The repository state store along a run\<close>

lemma step_repo_effect: "repo_effect s (fst (fst (step h (s, w) ev)))"
proof -
  obtain s' w' fx where st: "step h (s, w) ev = ((s', w'), fx)" by (metis prod.exhaust)
  from step_is_segment [OF st] segment_repo [of "(s', fx, ts)" h s for ts]
  have "repo_effect s s'" by (auto simp add: repo_effect_def repo_same_def)
  with st show ?thesis by simp
qed

lemma run_nonGit:
  "nonGit_not_indexable (fst sys) \<Longrightarrow> nonGit_not_indexable (fst (fst (run h sys evs)))"
proof (induction evs arbitrary: sys)
  case Nil
  then show ?case by simp
next
  case (Cons ev evs)
  obtain s w where sys: "sys = (s, w)" by (cases sys) auto
  from repo_effect_nonGit [OF step_repo_effect [of s h w ev]] Cons.prems sys
  have "nonGit_not_indexable (fst (fst (step h sys ev)))" by simp
  from Cons.IH [OF this] show ?case by (simp only: run_Cons_fst)
qed

lemma run_loaded_before_cached:
  "loaded_before_cached (fst sys) \<Longrightarrow> loaded_before_cached (fst (fst (run h sys evs)))"
proof (induction evs arbitrary: sys)
  case Nil
  then show ?case by simp
next
  case (Cons ev evs)
  obtain s w where sys: "sys = (s, w)" by (cases sys) auto
  from repo_effect_loaded [OF step_repo_effect [of s h w ev]] Cons.prems sys
  have "loaded_before_cached (fst (fst (step h sys ev)))" by simp
  from Cons.IH [OF this] show ?case by (simp only: run_Cons_fst)
qed

lemma run_last_load_cached:
  "last_load_cached (fst sys) \<Longrightarrow> last_load_cached (fst (fst (run h sys evs)))"
proof (induction evs arbitrary: sys)
  case Nil
  then show ?case by simp
next
  case (Cons ev evs)
  obtain s w where sys: "sys = (s, w)" by (cases sys) auto
  from repo_effect_last_load [OF step_repo_effect [of s h w ev]] Cons.prems sys
  have "last_load_cached (fst (fst (step h sys ev)))" by simp
  from Cons.IH [OF this] show ?case by (simp only: run_Cons_fst)
qed

lemma new_controller_repo:
  "nonGit_not_indexable (new_controller m e i)" "loaded_before_cached (new_controller m e i)"
  "last_load_cached (new_controller m e i)"
  by (simp_all add: nonGit_not_indexable_def loaded_before_cached_def last_load_cached_def
        new_controller_def)

subsection \<open>What the reachable systems have in common\<close>

lemma reachable_service_started:
  assumes "fst (run h (new_controller m e i, []) evs) = (s, w)"
    and "statusBar s \<noteq> None \<or> lastRepo s \<noteq> None \<or> repoState s p \<noteq> None"
  shows "serviceStarted s \<and> service s = Some Resolved"
proof -
  have c: "consistent (s, w)" using reachable_consistent [of h m e i evs] assms(1) by simp
  have "loaded_before_cached s"
    using run_loaded_before_cached [of "(new_controller m e i, [])" h evs] new_controller_repo(2) [of m e i] assms(1)
    by simp
  with assms(2) have "statusBar s \<noteq> None \<or> lastRepo s \<noteq> None"
    by (auto simp add: loaded_before_cached_def)
  with consistentD(1,3) [OF c] show ?thesis by blast
qed

lemma reachable_last_load:
  assumes "fst (run h (new_controller m e i, []) evs) = (s, w)" and "lastRepo s = Some r"
  shows "\<exists>c. repoState s (path r) = Some c \<and> hasIndex c = loadResult r \<and> (hasIndex c \<longrightarrow> isGit c)"
proof -
  have "last_load_cached s"
    using run_last_load_cached [of "(new_controller m e i, [])" h evs] new_controller_repo(3) [of m e i]
      assms(1) by simp
  with assms(2) show ?thesis by (simp add: last_load_cached_def)
qed

section \<open>The claims\<close>

text \<open>
  Claim C1, as amended. When a \<^verbatim>\<open>getService()\<close> call has failed (the spawn, the
  \<^verbatim>\<open>embeddings/initialize\<close> request or the first \<^verbatim>\<open>embeddings/set-token\<close> request
  rejects), the rejected promise stays in \<^verbatim>\<open>this.service\<close>: in every system the event
  loop reaches from a new controller, the next \<^verbatim>\<open>getService()\<close> call changes nothing and
  returns the same rejected handle, whatever happens afterwards the handle stays the
  rejected one, and \<^verbatim>\<open>spawnBfg\<close> is never called again.
\<close>

theorem failed_service_is_memoized:
  assumes "fst (run h (new_controller m e i, []) evs) = (s, w)" and "service s = Some (Rejected err)"
  shows "getService s = (s, [], [])
    \<and> awaited_service s = Some (RejectedWith err)
    \<and> service (fst (fst (run h (s, w) evs'))) = Some (Rejected err)
    \<and> SpawnBfg \<notin> set (snd (run h (s, w) evs'))
    \<and> service (fst (spawnAndBindService_spawned h s0 (RejectedWith err))) = Some (Rejected err)
    \<and> service (fst (spawnAndBindService_initialized s0 (RejectedWith err))) = Some (Rejected err)
    \<and> service (fst (spawnAndBindService_tokenSet s0 (RejectedWith err))) = Some (Rejected err)"
proof -
  have c: "consistent (s, w)" using reachable_consistent [of h m e i evs] assms(1) by simp
  from run_keeps_settled_service [OF c, of h evs'] assms(2)
  have "service (fst (fst (run h (s, w) evs'))) = Some (Rejected err)" by simp
  moreover from run_no_respawn [of s h w evs'] assms(2)
  have "SpawnBfg \<notin> set (snd (run h (s, w) evs'))" by simp
  ultimately show ?thesis
    using assms(2)
    by (simp add: getService_def awaited_service_def spawnAndBindService_spawned_def
          spawnAndBindService_initialized_def spawnAndBindService_tokenSet_def
          spawnAndBindService_rejects_def)
qed

text \<open>The amended claim in the session whose first spawn failed, followed by three more calls.\<close>

theorem failed_service_is_memoized_witness:
  "service (fst failed_system) = Some (Rejected (JsError (Some ''spawn cody-engine ENOENT'')))
   \<and> getService (fst failed_system) = (fst failed_system, [], [])
   \<and> service (fst (fst (run example_host failed_system [Call_start, Call_query ''q'', Call_index])))
        = Some (Rejected (JsError (Some ''spawn cody-engine ENOENT'')))
   \<and> SpawnBfg \<notin> set (snd (run example_host failed_system [Call_start, Call_query ''q'', Call_index]))"
proof -
  have reach: "fst (run example_host (new_controller None None None, [])
                  [Call_start, Resume 0 (RejectedWith (JsError (Some ''spawn cody-engine ENOENT'')))])
               = (fst failed_system, snd failed_system)"
    by (simp add: failed_system_def)
  have rej: "service (fst failed_system) = Some (Rejected (JsError (Some ''spawn cody-engine ENOENT'')))"
    by code_simp
  from failed_service_is_memoized [OF reach rej, of "[Call_start, Call_query ''q'', Call_index]"] rej
  show ?thesis by simp
qed

text \<open>
  Claim C1 as stated fails: after the failed spawn, \<^verbatim>\<open>getService()\<close> spawns nothing and
  leaves the rejected promise in place, and a second \<^verbatim>\<open>start()\<close> is rejected with the
  error of the first spawn.
\<close>

theorem getService_retry_counterexample:
  "service (fst failed_system) = Some (Rejected (JsError (Some ''spawn cody-engine ENOENT'')))
   \<and> fst (snd (getService (fst failed_system))) = []
   \<and> service (fst (getService (fst failed_system))) = Some (Rejected (JsError (Some ''spawn cody-engine ENOENT'')))
   \<and> snd (run example_host failed_system [Call_start, Resume 1 (Fulfilled Truthy)])
        = [Return (RetThrow (JsError (Some ''spawn cody-engine ENOENT'')))]"
  by code_simp

text \<open>
  Claim C2, as amended. \<^verbatim>\<open>index()\<close> does nothing (no request, no change of state) unless
  the endpoint is dotcom, a last-attempted repository with a non-empty path exists and
  its \<open>loadResult\<close> is false. When these hold it asks for the service and, once that has
  resolved, sends one \<^verbatim>\<open>embeddings/index\<close> request for that path with the model and the
  dimension 1536. The guard does not read \<^verbatim>\<open>pathBeingIndexed\<close>: a call made while the
  same repository is being indexed passes it.
\<close>

theorem index_guard_decides:
  "(\<not> index_guard s \<longrightarrow> index s = (s, [Return RetVoid], []))
   \<and> (index_guard s \<longrightarrow>
        (\<exists>r. lastRepo s = Some r
           \<and> index s = (fst (getService s), fst (snd (getService s)),
                        snd (snd (getService s)) @ [Index_service (path r)])))
   \<and> index_guard s = (endpointIsDotcom s \<and> (\<exists>r. lastRepo s = Some r \<and> path r \<noteq> [] \<and> \<not> loadResult r))
   \<and> index_guard (s\<lparr>pathBeingIndexed := b\<rparr>) = index_guard s
   \<and> index_service s p (Fulfilled ()) = (s, [Request (Embeddings_index p (model s) 1536)], [Index_wait p])"
  by (auto simp add: index_def index_guard_def index_service_def truthy_def case_prod_beta
        split: option.splits)

text \<open>The amended claim in the worked session while \<^verbatim>\<open>/repo\<close> is indexed, and on a new controller.\<close>

theorem index_guard_decides_witness:
  "index_guard (fst indexing_system)
   \<and> index (fst indexing_system) = (fst indexing_system, [], [Index_service ''/repo''])
   \<and> index_service (fst indexing_system) ''/repo'' (Fulfilled ())
        = (fst indexing_system, [Request (Embeddings_index ''/repo'' ''openai/text-embedding-ada-002'' 1536)],
           [Index_wait ''/repo''])
   \<and> index (new_controller None None None) = (new_controller None None None, [Return RetVoid], [])"
proof -
  have g: "index_guard (fst indexing_system)" by code_simp
  have l: "lastRepo (fst indexing_system) = Some \<lparr>path = ''/repo'', loadResult = False\<rparr>" by code_simp
  have sv: "service (fst indexing_system) = Some Resolved" by code_simp
  have m: "model (fst indexing_system) = ''openai/text-embedding-ada-002''" by code_simp
  have n: "\<not> index_guard (new_controller None None None)" by code_simp
  from index_guard_decides [of "fst indexing_system" None "''/repo''"]
       index_guard_decides [of "new_controller None None None" None "''/repo''"] g l sv m n
  show ?thesis by (simp add: getService_def)
qed

text \<open>
  Claim C2 as stated fails: while \<^verbatim>\<open>/repo\<close> is being indexed and its \<open>loadResult\<close> is
  still false, a second \<^verbatim>\<open>index()\<close> sends a second \<^verbatim>\<open>embeddings/index\<close> request.
\<close>

theorem index_while_indexing_counterexample:
  "pathBeingIndexed (fst indexing_system) = Some ''/repo''
   \<and> lastRepo (fst indexing_system) = Some \<lparr>path = ''/repo'', loadResult = False\<rparr>
   \<and> snd (run example_host indexing_system [Call_index, Resume 0 (Fulfilled Truthy)])
        = [Request (Embeddings_index ''/repo'' ''openai/text-embedding-ada-002'' 1536)]"
  by code_simp

text \<open>
  Claim C3, as amended. The \<^verbatim>\<open>status\<close> getter returns a value computed from the fields and
  the workspace folders and changes nothing. An endpoint that is not dotcom gives the
  empty list. Otherwise the active path \<open>p\<close> is the path of \<^verbatim>\<open>lastRepo\<close> when that is not
  empty, and else the first workspace folder or \<^verbatim>\<open>(No workspace loaded)\<close>, for a list of
  workspace folders that is undefined or not empty; and the getter decides in this
  order: no \<^verbatim>\<open>lastRepo\<close> gives the one group
  \<^verbatim>\<open>{name: p, providers: [{kind: 'embeddings', type: 'local', state: 'indeterminate'}]}\<close>;
  otherwise \<^verbatim>\<open>pathBeingIndexed\<close> equal to \<open>p\<close> gives that group in state indexing;
  otherwise a true \<open>loadResult\<close> gives it in state ready; otherwise a missing or
  non-git cached state of \<open>p\<close> gives the empty list; otherwise the state is unconsented
  when \<open>indexable\<close> is true and no-match when it is false. So in every system the event
  loop reaches from a new controller, a last repository that was found not to be git
  is not advertised unless it is being indexed.
\<close>

theorem status_priority_order:
  "(\<not> endpointIsDotcom s \<longrightarrow> status h s = Inr [])
   \<and> (lastRepo s = Some r \<and> path r \<noteq> [] \<longrightarrow> activePath h s = Inr (path r))
   \<and> ((lastRepo s = None \<or> (\<exists>r'. lastRepo s = Some r' \<and> path r' = [])) \<and> workspaceFolders h = None \<longrightarrow>
        activePath h s = Inr ''(No workspace loaded)'')
   \<and> ((lastRepo s = None \<or> (\<exists>r'. lastRepo s = Some r' \<and> path r' = []))
        \<and> workspaceFolders h = Some (folder # others) \<longrightarrow>
        activePath h s = Inr (if folder = [] then ''(No workspace loaded)'' else folder))
   \<and> (endpointIsDotcom s \<and> activePath h s = Inr p \<and> lastRepo s = None \<longrightarrow>
        status h s = Inr [\<lparr>name = p, providers = [\<lparr>kind = ''embeddings'', providerType = ''local'', state = Indeterminate\<rparr>]\<rparr>])
   \<and> (endpointIsDotcom s \<and> activePath h s = Inr p \<and> lastRepo s = Some r \<and> pathBeingIndexed s = Some p \<longrightarrow>
        status h s = Inr [\<lparr>name = p, providers = [\<lparr>kind = ''embeddings'', providerType = ''local'', state = Indexing\<rparr>]\<rparr>])
   \<and> (endpointIsDotcom s \<and> activePath h s = Inr p \<and> lastRepo s = Some r \<and> pathBeingIndexed s \<noteq> Some p
        \<and> loadResult r \<longrightarrow>
        status h s = Inr [\<lparr>name = p, providers = [\<lparr>kind = ''embeddings'', providerType = ''local'', state = Ready\<rparr>]\<rparr>])
   \<and> (endpointIsDotcom s \<and> activePath h s = Inr p \<and> lastRepo s = Some r \<and> pathBeingIndexed s \<noteq> Some p
        \<and> \<not> loadResult r
        \<and> (repoState s p = None \<or> (\<exists>c'. repoState s p = Some c' \<and> \<not> isGit c')) \<longrightarrow>
        status h s = Inr [])
   \<and> (endpointIsDotcom s \<and> activePath h s = Inr p \<and> lastRepo s = Some r \<and> pathBeingIndexed s \<noteq> Some p
        \<and> \<not> loadResult r \<and> repoState s p = Some c \<and> isGit c \<longrightarrow>
        status h s = Inr [\<lparr>name = p, providers = [\<lparr>kind = ''embeddings'', providerType = ''local'', state = (if indexable c then Unconsented else NoMatch)\<rparr>]\<rparr>])
   \<and> (fst (run h (new_controller m e i, []) evs) = (s, w) \<and> endpointIsDotcom s
        \<and> lastRepo s = Some r \<and> path r \<noteq> [] \<and> repoState s (path r) = Some c \<and> \<not> isGit c
        \<and> pathBeingIndexed s \<noteq> Some (path r) \<longrightarrow>
        status h s = Inr [])"
proof -
  have "status h s = Inr []"
    if reach: "fst (run h (new_controller m e i, []) evs) = (s, w)" and d: "endpointIsDotcom s"
      and r: "lastRepo s = Some r" and p: "path r \<noteq> []" and c: "repoState s (path r) = Some c"
      and g: "\<not> isGit c" and b: "pathBeingIndexed s \<noteq> Some (path r)"
  proof -
    from reachable_last_load [OF reach r] c g have "\<not> loadResult r" by auto
    moreover from r p have "activePath h s = Inr (path r)"
      by (simp add: activePath_def truthy_def)
    ultimately show ?thesis using d r c g b by (simp add: status_def)
  qed
  then show ?thesis
    by (auto simp add: status_def activePath_def workspacePath_def firstWorkspaceFolder_def
          or_default_def truthy_def)
qed

text \<open>
  The cases in the worked session: a new controller, the engine started, \<^verbatim>\<open>/repo\<close>
  being indexed, the index loaded, a directory that is not git (nothing is advertised),
  a repository without a remote.
\<close>

theorem status_priority_order_witness:
  "status example_host (new_controller None None None) = Inr []
   \<and> status example_host (fst started_system) = Inr [\<lparr>name = ''/repo'', providers = [\<lparr>kind = ''embeddings'', providerType = ''local'', state = Indeterminate\<rparr>]\<rparr>]
   \<and> status example_host (fst indexing_system) = Inr [\<lparr>name = ''/repo'', providers = [\<lparr>kind = ''embeddings'', providerType = ''local'', state = Indexing\<rparr>]\<rparr>]
   \<and> status example_host (fst loaded_system) = Inr [\<lparr>name = ''/repo'', providers = [\<lparr>kind = ''embeddings'', providerType = ''local'', state = Ready\<rparr>]\<rparr>]
   \<and> status example_host (fst notGit_system) = Inr []
   \<and> status example_host (fst noRemote_system) = Inr [\<lparr>name = ''/repo'', providers = [\<lparr>kind = ''embeddings'', providerType = ''local'', state = NoMatch\<rparr>]\<rparr>]"
proof -
  have a: "\<not> endpointIsDotcom (new_controller None None None)" by code_simp
  have b: "endpointIsDotcom (fst started_system)" "lastRepo (fst started_system) = None"
    "activePath example_host (fst started_system) = Inr ''/repo''" by code_simp+
  have c: "endpointIsDotcom (fst indexing_system)"
    "lastRepo (fst indexing_system) = Some \<lparr>path = ''/repo'', loadResult = False\<rparr>"
    "pathBeingIndexed (fst indexing_system) = Some ''/repo''"
    "activePath example_host (fst indexing_system) = Inr ''/repo''" by code_simp+
  have d: "endpointIsDotcom (fst loaded_system)"
    "lastRepo (fst loaded_system) = Some \<lparr>path = ''/repo'', loadResult = True\<rparr>"
    "pathBeingIndexed (fst loaded_system) = None"
    "activePath example_host (fst loaded_system) = Inr ''/repo''" by code_simp+
  have e: "endpointIsDotcom (fst notGit_system)"
    "lastRepo (fst notGit_system) = Some \<lparr>path = ''/repo'', loadResult = False\<rparr>"
    "pathBeingIndexed (fst notGit_system) = None"
    "activePath example_host (fst notGit_system) = Inr ''/repo''"
    "repoState (fst notGit_system) ''/repo'' = Some \<lparr>indexable = False, isGit = False, hasIndex = False\<rparr>"
    by code_simp+
  have f: "endpointIsDotcom (fst noRemote_system)"
    "lastRepo (fst noRemote_system) = Some \<lparr>path = ''/repo'', loadResult = False\<rparr>"
    "pathBeingIndexed (fst noRemote_system) = None"
    "activePath example_host (fst noRemote_system) = Inr ''/repo''"
    "repoState (fst noRemote_system) ''/repo'' = Some \<lparr>indexable = False, isGit = True, hasIndex = False\<rparr>"
    by code_simp+
  from status_priority_order [where s = "new_controller None None None" and h = example_host] a
  have 1: "status example_host (new_controller None None None) = Inr []" by simp
  from status_priority_order [where s = "fst started_system" and h = example_host and p = "''/repo''"] b
  have 2: "status example_host (fst started_system) = Inr [\<lparr>name = ''/repo'', providers = [\<lparr>kind = ''embeddings'', providerType = ''local'', state = Indeterminate\<rparr>]\<rparr>]" by simp
  from status_priority_order [where s = "fst indexing_system" and h = example_host and p = "''/repo''"
      and r = "\<lparr>path = ''/repo'', loadResult = False\<rparr>"] c
  have 3: "status example_host (fst indexing_system) = Inr [\<lparr>name = ''/repo'', providers = [\<lparr>kind = ''embeddings'', providerType = ''local'', state = Indexing\<rparr>]\<rparr>]" by simp
  from status_priority_order [where s = "fst loaded_system" and h = example_host and p = "''/repo''"
      and r = "\<lparr>path = ''/repo'', loadResult = True\<rparr>"] d
  have 4: "status example_host (fst loaded_system) = Inr [\<lparr>name = ''/repo'', providers = [\<lparr>kind = ''embeddings'', providerType = ''local'', state = Ready\<rparr>]\<rparr>]" by simp
  from status_priority_order [where s = "fst notGit_system" and h = example_host and p = "''/repo''"
      and r = "\<lparr>path = ''/repo'', loadResult = False\<rparr>"] e
  have 5: "status example_host (fst notGit_system) = Inr []" by simp
  from status_priority_order [where s = "fst noRemote_system" and h = example_host and p = "''/repo''"
      and r = "\<lparr>path = ''/repo'', loadResult = False\<rparr>"
      and c = "\<lparr>indexable = False, isGit = True, hasIndex = False\<rparr>"] f
  have 6: "status example_host (fst noRemote_system) = Inr [\<lparr>name = ''/repo'', providers = [\<lparr>kind = ''embeddings'', providerType = ''local'', state = NoMatch\<rparr>]\<rparr>]" by simp
  from 1 2 3 4 5 6 show ?thesis by simp
qed

text \<open>
  Claim C3 as stated fails twice. A directory recorded as not git advertises
  embeddings once \<^verbatim>\<open>index()\<close> has been called for it and the engine has accepted the
  request: the getter reports it as being indexed. And on dotcom with no
  \<^verbatim>\<open>lastRepo\<close> the getter gives no group, but throws, when the list of workspace
  folders is empty.
\<close>

theorem status_priority_order_counterexample:
  "repoState (fst notGit_indexing_system) ''/repo'' = Some \<lparr>indexable = False, isGit = False, hasIndex = False\<rparr>
   \<and> status example_host (fst notGit_indexing_system) = Inr [\<lparr>name = ''/repo'', providers = [\<lparr>kind = ''embeddings'', providerType = ''local'', state = Indexing\<rparr>]\<rparr>]
   \<and> endpointIsDotcom (fst signedIn_system)
   \<and> lastRepo (fst signedIn_system) = None
   \<and> status folderless_host (fst signedIn_system)
        = Inl (JsError (Some ''Cannot read properties of undefined (reading 'uri')''))"
  by code_simp

text \<open>
  Claim C4. \<^verbatim>\<open>load(repoUri)\<close> returns false, sends nothing to the engine and leaves
  every field (\<^verbatim>\<open>repoState\<close> and \<^verbatim>\<open>lastRepo\<close> among them) as it was when the endpoint
  is not dotcom, when there is no path or an empty one, or when the cached state of the
  path has \<open>hasIndex\<close> false. A cached state with \<open>hasIndex\<close> true does not stop it: in
  every system the event loop reaches from a new controller, the call goes on to the
  load-attempt routine, which sends \<^verbatim>\<open>embeddings/load\<close> again. When none of the three
  applies and the service has not started, \<^verbatim>\<open>load\<close> calls \<^verbatim>\<open>getService()\<close> in the
  background (which spawns the engine when no spawn was attempted before) and returns
  false at once, with \<^verbatim>\<open>repoState\<close> and \<^verbatim>\<open>lastRepo\<close> unchanged.
\<close>

theorem load_short_circuits:
  "((\<not> endpointIsDotcom s \<or> repoUri = None \<or> repoUri = Some []
      \<or> (\<exists>c. repoUri = Some p \<and> repoState s p = Some c \<and> \<not> hasIndex c)) \<longrightarrow>
      load s repoUri = (s, [Return (RetBool False)], []))
   \<and> (fst (run h (new_controller m e i, []) evs) = (s, w) \<and> endpointIsDotcom s \<and> p \<noteq> []
        \<and> repoState s p = Some c \<and> hasIndex c \<longrightarrow>
        load s (Some p) = (s, [], [EagerlyLoad_service p FromLoad])
        \<and> resume h s (EagerlyLoad_service p FromLoad) out
            = Some (s, [Request (Embeddings_load p)], [EagerlyLoad_wait p FromLoad]))
   \<and> (endpointIsDotcom s \<and> p \<noteq> [] \<and> (\<forall>c. repoState s p = Some c \<longrightarrow> hasIndex c)
        \<and> \<not> serviceStarted s \<longrightarrow>
        load s (Some p) = (fst (getService s), fst (snd (getService s)) @ [Return (RetBool False)],
                           snd (snd (getService s)) @ [LoadBackground_service])
        \<and> repoState (fst (getService s)) = repoState s
        \<and> lastRepo (fst (getService s)) = lastRepo s
        \<and> (service s = None \<longrightarrow> getService s = (s\<lparr>service := Some Pending\<rparr>, [SpawnBfg], [Spawn_wait])))"
proof (intro conjI impI)
  assume "\<not> endpointIsDotcom s \<or> repoUri = None \<or> repoUri = Some []
      \<or> (\<exists>c. repoUri = Some p \<and> repoState s p = Some c \<and> \<not> hasIndex c)"
  then show "load s repoUri = (s, [Return (RetBool False)], [])"
    by (auto simp add: load_def truthy_def split: option.splits)
next
  assume a: "fst (run h (new_controller m e i, []) evs) = (s, w) \<and> endpointIsDotcom s \<and> p \<noteq> []
        \<and> repoState s p = Some c \<and> hasIndex c"
  then have st: "serviceStarted s" "service s = Some Resolved"
    using reachable_service_started [of h m e i evs s w p] by simp_all
  with a show "load s (Some p) = (s, [], [EagerlyLoad_service p FromLoad])"
    by (simp add: load_def truthy_def eagerlyLoad_def getService_def)
  from st show "resume h s (EagerlyLoad_service p FromLoad) out
            = Some (s, [Request (Embeddings_load p)], [EagerlyLoad_wait p FromLoad])"
    by (simp add: awaited_service_def eagerlyLoad_service_def)
next
  assume a: "endpointIsDotcom s \<and> p \<noteq> [] \<and> (\<forall>c. repoState s p = Some c \<longrightarrow> hasIndex c)
        \<and> \<not> serviceStarted s"
  then show "load s (Some p) = (fst (getService s), fst (snd (getService s)) @ [Return (RetBool False)],
                           snd (snd (getService s)) @ [LoadBackground_service])"
    by (auto simp add: load_def truthy_def case_prod_beta split: option.splits)
  show "repoState (fst (getService s)) = repoState s" by (rule getService_repo)
  show "lastRepo (fst (getService s)) = lastRepo s" by (rule getService_repo)
next
  assume "service s = None"
  then show "getService s = (s\<lparr>service := Some Pending\<rparr>, [SpawnBfg], [Spawn_wait])"
    by (simp add: getService_def)
qed

text \<open>
  The claim in the worked session: the negative cache for the directory that is not git,
  the second query for the repository whose index is loaded, and the background start
  right after signing in.
\<close>

theorem load_short_circuits_witness:
  "load (fst notGit_system) (Some ''/repo'') = (fst notGit_system, [Return (RetBool False)], [])
   \<and> load (fst loaded_system) (Some ''/repo'') = (fst loaded_system, [], [EagerlyLoad_service ''/repo'' FromLoad])
   \<and> resume example_host (fst loaded_system) (EagerlyLoad_service ''/repo'' FromLoad) (Fulfilled Truthy)
        = Some (fst loaded_system, [Request (Embeddings_load ''/repo'')], [EagerlyLoad_wait ''/repo'' FromLoad])
   \<and> fst (snd (load (fst signedIn_system) (Some ''/repo''))) = [SpawnBfg, Return (RetBool False)]
   \<and> snd (snd (load (fst signedIn_system) (Some ''/repo''))) = [Spawn_wait, LoadBackground_service]"
proof -
  have a: "repoState (fst notGit_system) ''/repo'' = Some \<lparr>indexable = False, isGit = False, hasIndex = False\<rparr>"
    by code_simp
  have b: "fst (run example_host (new_controller None None None, []) loaded_events)
             = (fst loaded_system, snd loaded_system)"
    by (simp add: loaded_system_def)
  have b': "endpointIsDotcom (fst loaded_system)"
    "repoState (fst loaded_system) ''/repo'' = Some \<lparr>indexable = True, isGit = True, hasIndex = True\<rparr>"
    by code_simp+
  have c: "endpointIsDotcom (fst signedIn_system)" "repoState (fst signedIn_system) ''/repo'' = None"
    "\<not> serviceStarted (fst signedIn_system)" "service (fst signedIn_system) = None"
    by code_simp+
  from load_short_circuits [where s = "fst notGit_system" and repoUri = "Some ''/repo''" and p = "''/repo''"
        and h = example_host and m = None and e = None and i = None and evs = "[]" and w = "[]"
        and c = "\<lparr>indexable = False, isGit = False, hasIndex = False\<rparr>"] a
  have 1: "load (fst notGit_system) (Some ''/repo'') = (fst notGit_system, [Return (RetBool False)], [])"
    by simp
  from load_short_circuits [where s = "fst loaded_system" and repoUri = None and p = "''/repo''"
        and h = example_host and m = None and e = None and i = None and evs = loaded_events
        and w = "snd loaded_system" and out = "Fulfilled Truthy"
        and c = "\<lparr>indexable = True, isGit = True, hasIndex = True\<rparr>"] b b'
  have 2: "load (fst loaded_system) (Some ''/repo'') = (fst loaded_system, [], [EagerlyLoad_service ''/repo'' FromLoad])
     \<and> resume example_host (fst loaded_system) (EagerlyLoad_service ''/repo'' FromLoad) (Fulfilled Truthy)
        = Some (fst loaded_system, [Request (Embeddings_load ''/repo'')], [EagerlyLoad_wait ''/repo'' FromLoad])"
    by simp
  from load_short_circuits [where s = "fst signedIn_system" and repoUri = None and p = "''/repo''"
        and h = example_host and m = None and e = None and i = None and evs = "[]" and w = "[]"
        and c = "\<lparr>indexable = True, isGit = True, hasIndex = True\<rparr>"] c
  have 3: "fst (snd (load (fst signedIn_system) (Some ''/repo''))) = [SpawnBfg, Return (RetBool False)]
   \<and> snd (snd (load (fst signedIn_system) (Some ''/repo''))) = [Spawn_wait, LoadBackground_service]"
    by simp
  from 1 2 3 show ?thesis by simp
qed


text \<open>
  Claim C6. Every entry of \<^verbatim>\<open>repoState\<close> with \<open>isGit\<close> false has \<open>indexable\<close> false: this
  holds in every system the event loop reaches from a new controller, by any sequence
  of calls, notifications and resumed continuations, and every single step preserves
  it.
\<close>

theorem nonGit_never_indexable:
  "nonGit_not_indexable (fst (fst (run h (new_controller m e i, []) evs)))
   \<and> (nonGit_not_indexable s \<longrightarrow> nonGit_not_indexable (fst (fst (step h (s, w) ev))))"
  using run_nonGit [of "(new_controller m e i, [])" h evs] new_controller_repo(1) [of m e i]
    repo_effect_nonGit [OF step_repo_effect [of s h w ev]]
  by simp

text \<open>
  The claim in the session that found \<^verbatim>\<open>/repo\<close> not to be git: the entry is there, with
  both fields false, and a further \<^verbatim>\<open>load\<close> keeps the invariant.
\<close>

theorem nonGit_never_indexable_witness:
  "nonGit_not_indexable (fst notGit_system)
   \<and> repoState (fst notGit_system) ''/repo'' = Some \<lparr>indexable = False, isGit = False, hasIndex = False\<rparr>
   \<and> nonGit_not_indexable (fst (fst (step example_host notGit_system (Call_load (Some ''/repo'')))))"
proof -
  have e: "repoState (fst notGit_system) ''/repo'' = Some \<lparr>indexable = False, isGit = False, hasIndex = False\<rparr>"
    by code_simp
  from nonGit_never_indexable [of example_host None None None notGit_events "fst notGit_system"
         "snd notGit_system" "Call_load (Some ''/repo'')"] e
  show ?thesis by (simp add: notGit_system_def)
qed

text \<open>
  Claim C7. In every system the event loop reaches from a new controller in which a
  path is being indexed and a last repository exists, the status bar item exists, and
  handling one \<^verbatim>\<open>Done\<close> notification clears it and \<^verbatim>\<open>pathBeingIndexed\<close>, sets the hide
  timer and fires exactly one status event. When the path being indexed is the path of
  the last repository it starts exactly one reload, which, resumed, sends exactly one
  \<^verbatim>\<open>embeddings/load\<close> request; when the last repository has another path it starts no
  reload and nothing else happens. (What the reload does once the engine has answered
  that request is the load-attempt routine's: one status event of its own, then the
  controller event.)
\<close>

theorem done_notification:
  assumes "fst (run h (new_controller m e i, []) evs) = (s, w)"
    and "pathBeingIndexed s = Some p" and "lastRepo s = Some r"
  shows "\<exists>bar. statusBar s = Some bar
     \<and> onProgress s Done
         = (s\<lparr>statusBar := None, pathBeingIndexed := None\<rparr>,
            [BarHideLater (bar\<lparr>itemText := SparkleText, backgroundColor := None, shown := True\<rparr>), StatusFire],
            if path r = p then [EagerlyLoad_service p FromDone] else [])
     \<and> resume h (s\<lparr>statusBar := None, pathBeingIndexed := None\<rparr>) (EagerlyLoad_service p FromDone) out
         = Some (s\<lparr>statusBar := None, pathBeingIndexed := None\<rparr>,
                 [Request (Embeddings_load p)], [EagerlyLoad_wait p FromDone])
     \<and> (path r = p \<longrightarrow>
          run h (s, w) [Notify Done, Resume (length w) out]
            = ((s\<lparr>statusBar := None, pathBeingIndexed := None\<rparr>, w @ [EagerlyLoad_wait p FromDone]),
               [BarHideLater (bar\<lparr>itemText := SparkleText, backgroundColor := None, shown := True\<rparr>),
                StatusFire, Request (Embeddings_load p)]))
     \<and> (path r \<noteq> p \<longrightarrow>
          step h (s, w) (Notify Done)
            = ((s\<lparr>statusBar := None, pathBeingIndexed := None\<rparr>, w),
               [BarHideLater (bar\<lparr>itemText := SparkleText, backgroundColor := None, shown := True\<rparr>),
                StatusFire]))
     \<and> fst (snd (eagerlyLoad_settled s' p FromDone out')) = [StatusFire, ChangeFire]"
proof -
  have c: "consistent (s, w)" using reachable_consistent [of h m e i evs] assms(1) by simp
  from consistentD(5) [OF c assms(2)] obtain bar where bar: "statusBar s = Some bar" and p: "truthy p"
    by auto
  from reachable_service_started [OF assms(1), of p] bar
  have st: "service s = Some Resolved" by simp
  have "fst (snd (eagerlyLoad_settled s' p FromDone out')) = [StatusFire, ChangeFire]"
    by (cases out') (simp_all add: eagerlyLoad_settled_def eagerlyLoad_end_def)
  with bar p st assms(2,3) show ?thesis
    by (simp add: onProgress_def Let_def eagerlyLoad_def getService_def awaited_service_def
          eagerlyLoad_service_def step_def enqueue_def nth_append)
qed

text \<open>
  The claim in the worked session, with \<^verbatim>\<open>/repo\<close> still the last repository and with
  \<^verbatim>\<open>/other\<close> loaded in the meantime.
\<close>

theorem done_notification_witness:
  "run example_host indexing_system [Notify Done, Resume 0 (Fulfilled Truthy)]
     = (((fst indexing_system)\<lparr>statusBar := None, pathBeingIndexed := None\<rparr>,
         [EagerlyLoad_wait ''/repo'' FromDone]),
        [BarHideLater \<lparr>itemText = SparkleText, backgroundColor = None, tooltip = None, shown = True\<rparr>,
         StatusFire, Request (Embeddings_load ''/repo'')])
   \<and> step example_host switched_system (Notify Done)
     = (((fst switched_system)\<lparr>statusBar := None, pathBeingIndexed := None\<rparr>, []),
        [BarHideLater \<lparr>itemText = SparkleText, backgroundColor = None, tooltip = None, shown = True\<rparr>,
         StatusFire])"
proof -
  have a: "fst (run example_host (new_controller None None None, []) indexing_events)
             = (fst indexing_system, snd indexing_system)"
    by (simp add: indexing_system_def)
  have a': "pathBeingIndexed (fst indexing_system) = Some ''/repo''"
    "lastRepo (fst indexing_system) = Some \<lparr>path = ''/repo'', loadResult = False\<rparr>"
    "statusBar (fst indexing_system) = Some \<lparr>itemText = NoText, backgroundColor = None, tooltip = None, shown = False\<rparr>"
    "snd indexing_system = []"
    by code_simp+
  have b: "fst (run example_host (new_controller None None None, []) switched_events)
             = (fst switched_system, snd switched_system)"
    by (simp add: switched_system_def)
  have b': "pathBeingIndexed (fst switched_system) = Some ''/repo''"
    "lastRepo (fst switched_system) = Some \<lparr>path = ''/other'', loadResult = False\<rparr>"
    "statusBar (fst switched_system) = Some \<lparr>itemText = NoText, backgroundColor = None, tooltip = None, shown = False\<rparr>"
    "snd switched_system = []"
    by code_simp+
  have ia: "indexing_system = (fst indexing_system, [])" by (metis a'(4) prod.collapse)
  have ib: "switched_system = (fst switched_system, [])" by (metis b'(4) prod.collapse)
  from done_notification [OF a a'(1,2), of "Fulfilled Truthy"] a'(3,4)
  have 1: "run example_host (fst indexing_system, []) [Notify Done, Resume 0 (Fulfilled Truthy)]
     = (((fst indexing_system)\<lparr>statusBar := None, pathBeingIndexed := None\<rparr>,
         [EagerlyLoad_wait ''/repo'' FromDone]),
        [BarHideLater \<lparr>itemText = SparkleText, backgroundColor = None, tooltip = None, shown = True\<rparr>,
         StatusFire, Request (Embeddings_load ''/repo'')])"
    by auto
  from done_notification [OF b b'(1,2)] b'(3,4)
  have 2: "step example_host (fst switched_system, []) (Notify Done)
     = (((fst switched_system)\<lparr>statusBar := None, pathBeingIndexed := None\<rparr>, []),
        [BarHideLater \<lparr>itemText = SparkleText, backgroundColor = None, tooltip = None, shown = True\<rparr>,
         StatusFire])"
    by auto
  from 1 2 ia ib show ?thesis by simp
qed

text \<open>
  Claim C8, as amended. For a \<^verbatim>\<open>Progress\<close> notification whose counts are integers with
  \<open>0 \<le> numItems\<close>, \<open>100 * numItems < 2 ^ 53\<close> and \<open>0 < totalItems < 2 ^ 53\<close>, the
  displayed percentage is \<open>\<lfloor>100 * numItems / totalItems\<rfloor>\<close>. It is not clamped: it lies
  between 0 and 100 when \<open>numItems \<le> totalItems\<close>. For one \<open>totalItems\<close> it does not
  decrease when \<open>numItems\<close> grows. The handler writes it, with the current path as
  tooltip, into the status bar item.
\<close>

theorem progress_percent:
  "(0 \<le> numItems \<and> 100 * numItems < 2 ^ 53 \<and> 0 < totalItems \<and> totalItems < 2 ^ 53 \<longrightarrow>
      percent numItems totalItems = Num \<lfloor>(100 * rat_of_int numItems) / rat_of_int totalItems\<rfloor>)
   \<and> (0 \<le> numItems \<and> 100 * numItems < 2 ^ 53 \<and> 0 < totalItems \<and> totalItems < 2 ^ 53
        \<and> numItems \<le> totalItems \<longrightarrow>
        (\<exists>q. percent numItems totalItems = Num q \<and> 0 \<le> q \<and> q \<le> 100))
   \<and> (0 \<le> numItems \<and> numItems \<le> numItems' \<and> 100 * numItems' < 2 ^ 53
        \<and> 0 < totalItems \<and> totalItems < 2 ^ 53 \<longrightarrow>
        (\<exists>q q'. percent numItems totalItems = Num q \<and> percent numItems' totalItems = Num q' \<and> q \<le> q'))
   \<and> (statusBar s = Some bar \<longrightarrow>
        onProgress s (Progress numItems totalItems currentPath)
          = (s\<lparr>statusBar := Some (bar\<lparr>itemText := Spin (percent numItems totalItems),
                                         backgroundColor := None,
                                         tooltip := Some currentPath,
                                         shown := True\<rparr>)\<rparr>, [], []))"
proof (intro conjI impI)
  assume a: "0 \<le> numItems \<and> 100 * numItems < 2 ^ 53 \<and> 0 < totalItems \<and> totalItems < 2 ^ 53"
  have "\<lfloor>rat_of_int (100 * numItems) / rat_of_int totalItems\<rfloor> = (100 * numItems) div totalItems"
    by (rule floor_divide_of_int_eq)
  with a percent_exact [of numItems totalItems]
  show "percent numItems totalItems = Num \<lfloor>(100 * rat_of_int numItems) / rat_of_int totalItems\<rfloor>"
    by simp
next
  assume a: "0 \<le> numItems \<and> 100 * numItems < 2 ^ 53 \<and> 0 < totalItems \<and> totalItems < 2 ^ 53
        \<and> numItems \<le> totalItems"
  then have "0 \<le> (100 * numItems) div totalItems"
    by (simp add: pos_imp_zdiv_nonneg_iff)
  moreover from a have "(100 * numItems) div totalItems \<le> (100 * totalItems) div totalItems"
    by (intro zdiv_mono1) simp_all
  ultimately show "\<exists>q. percent numItems totalItems = Num q \<and> 0 \<le> q \<and> q \<le> 100"
    using a percent_exact [of numItems totalItems] by simp
next
  assume a: "0 \<le> numItems \<and> numItems \<le> numItems' \<and> 100 * numItems' < 2 ^ 53
        \<and> 0 < totalItems \<and> totalItems < 2 ^ 53"
  then have "(100 * numItems) div totalItems \<le> (100 * numItems') div totalItems"
    by (intro zdiv_mono1) simp_all
  with a percent_exact [of numItems totalItems] percent_exact [of numItems' totalItems]
  show "\<exists>q q'. percent numItems totalItems = Num q \<and> percent numItems' totalItems = Num q' \<and> q \<le> q'"
    by simp
next
  assume "statusBar s = Some bar"
  then show "onProgress s (Progress numItems totalItems currentPath)
          = (s\<lparr>statusBar := Some (bar\<lparr>itemText := Spin (percent numItems totalItems),
                                         backgroundColor := None,
                                         tooltip := Some currentPath,
                                         shown := True\<rparr>)\<rparr>, [], [])"
    by (simp add: onProgress_def)
qed

text \<open>The amended claim at 50 of 100 items, then 60 of 100, in the worked session.\<close>

theorem progress_percent_witness:
  "percent 50 100 = Num 50 \<and> percent 60 100 = Num 60
   \<and> statusBar (fst (onProgress (fst indexing_system) (Progress 50 100 ''/repo/main.c'')))
       = Some \<lparr>itemText = Spin (Num 50), backgroundColor = None, tooltip = Some ''/repo/main.c'', shown = True\<rparr>"
proof -
  have bar: "statusBar (fst indexing_system) = Some createStatusBarItem" by code_simp
  from progress_percent [of 50 100 60 "fst indexing_system" createStatusBarItem "''/repo/main.c''"]
       progress_percent [of 60 100 60 "fst indexing_system" createStatusBarItem "''/repo/main.c''"] bar
  show ?thesis by (simp add: createStatusBarItem_def)
qed

text \<open>
  Claim C8 as stated fails: 3 of 2 items are displayed as 150 percent, and from 50 of
  100 items to 60 of 200 the displayed percentage falls from 50 to 30.
\<close>

theorem progress_percent_counterexample:
  "statusBar (fst (onProgress (fst indexing_system) (Progress 3 2 ''/repo/main.c'')))
       = Some \<lparr>itemText = Spin (Num 150), backgroundColor = None, tooltip = Some ''/repo/main.c'', shown = True\<rparr>
   \<and> percent 50 100 = Num 50 \<and> percent 60 200 = Num 30"
proof -
  have bar: "statusBar (fst indexing_system) = Some createStatusBarItem" by code_simp
  have "percent 3 2 = Num 150" "percent 50 100 = Num 50" "percent 60 200 = Num 30"
    using percent_exact [of 3 2] percent_exact [of 50 100] percent_exact [of 60 200] by simp_all
  with bar show ?thesis by (simp add: onProgress_def createStatusBarItem_def)
qed

text \<open>
  Claim C9. Calling \<^verbatim>\<open>setAccessToken\<close> a second time with the same endpoint and token
  fires no status event and no controller event, sends no \<^verbatim>\<open>embeddings/set-token\<close>
  request and leaves every field, \<^verbatim>\<open>endpointIsDotcom\<close> and the stored token among them,
  as the first call left it. The continuations of the first call change no field
  either, so it makes no difference whether they have run in between.
\<close>

theorem setAccessToken_twice:
  "setAccessToken h (fst (setAccessToken h s ep tok)) ep tok
     = (fst (setAccessToken h s ep tok), [Return RetVoid], [])
   \<and> fst (setAccessToken_service s' t svc) = s'
   \<and> fst (setAccessToken_settled s' out) = s'"
proof -
  have twice: "setAccessToken h (fst (setAccessToken h s ep tok)) ep tok
     = (fst (setAccessToken h s ep tok), [Return RetVoid], [])"
  proof (cases tok)
    case None
    then show ?thesis
      by (simp add: setAccessToken_def Let_def token_is_def token_or_undefined_def)
  next
    case (Some t)
    show ?thesis
    proof (cases "truthy t")
      case False
      with Some show ?thesis
        by (simp add: setAccessToken_def Let_def token_is_def token_or_undefined_def)
    next
      case True
      with Some show ?thesis
        by (simp add: setAccessToken_def Let_def token_is_def token_or_undefined_def getService_def
                 split: prod.splits)
    qed
  qed
  have "fst (setAccessToken_service s' t svc) = s'"
    by (cases svc) (simp_all add: setAccessToken_service_def)
  moreover have "fst (setAccessToken_settled s' out) = s'"
    by (cases out) (simp_all add: setAccessToken_settled_def)
  ultimately show ?thesis using twice by simp
qed

text \<open>
  Claim C10. A notification of \<^verbatim>\<open>embeddings/progress\<close>, whatever its payload, that
  arrives while there is no status bar item is ignored: no field changes
  (\<^verbatim>\<open>pathBeingIndexed\<close> included), no reload is started, and no event fires.
\<close>

theorem progress_without_statusBar_ignored:
  "statusBar s = None \<Longrightarrow>
     onProgress s obj = (s, [], []) \<and> step h (s, waiting) (Notify obj) = ((s, waiting), [])"
  by (simp add: onProgress_def step_def enqueue_def)

text \<open>The claim for \<^verbatim>\<open>Done\<close> on a new controller.\<close>

theorem progress_without_statusBar_ignored_witness:
  "statusBar (new_controller None None None) = None
   \<and> onProgress (new_controller None None None) Done = (new_controller None None None, [], [])
   \<and> step example_host (new_controller None None None, []) (Notify Done)
        = ((new_controller None None None, []), [])"
  using progress_without_statusBar_ignored [of "new_controller None None None" Done example_host "[]"]
  by (simp add: new_controller_def)

end
